theory Spec2Isabelle
  imports Complex_Main "HOL-Library.Word" "HOL-Library.Signed_Division"
begin

unbundle bit_operations_syntax

section \<open>Data model\<close>

text \<open>
  The pixel formats and compression types of a frame. The enumeration header is not
  part of the sources at hand; \<open>RawBufferStreamer.cpp\<close> names the three raw formats and
  treats every other tag alike (the final \<open>else\<close> of each transform), so one further
  constructor carrying the foreign tag stands for all of them.
\<close>

datatype PixelFormat = PF_RAW10 | PF_RAW12 | PF_RAW16 | PF_OTHER nat

datatype CompressionType = UNCOMPRESSED | BITNZPACK_2

text \<open>
  Memory reached through a \<open>uint8_t*\<close> is a store from byte offsets to bytes; a
  \<open>std::vector<uint16_t>\<close> indexed with \<open>operator[]\<close> is a store from indices to
  samples, its size kept beside it. The C++ code performs no bounds checks, and neither
  does the store: the extent of the allocation is not tracked.
\<close>

type_synonym bytes = "int \<Rightarrow> 8 word"
type_synonym samples = "int \<Rightarrow> 16 word"

text \<open>
  A frame. \<open>bdata\<close>, \<open>validRange\<close>, \<open>locked\<close> and \<open>lockCalls\<close> stand for the
  lockable data region \<open>buffer.data\<close>: its bytes, its valid range, whether it is
  currently locked and how many times \<open>lock\<close> has been called on it. The metadata is
  opaque.
\<close>

record 'm RawImageBuffer =
  bdata :: bytes
  validRange :: "int \<times> int"
  locked :: bool
  lockCalls :: nat
  width :: int
  height :: int
  rowStride :: int
  pixelFormat :: PixelFormat
  compressionType :: CompressionType
  isBinned :: bool
  isCompressed :: bool
  metadata :: 'm

definition lock :: "'m RawImageBuffer \<Rightarrow> 'm RawImageBuffer" where
  "lock b = b\<lparr>locked := True, lockCalls := Suc (lockCalls b)\<rparr>"

definition unlock :: "'m RawImageBuffer \<Rightarrow> 'm RawImageBuffer" where
  "unlock b = b\<lparr>locked := False\<rparr>"

definition setValidRange :: "int \<Rightarrow> int \<Rightarrow> 'm RawImageBuffer \<Rightarrow> 'm RawImageBuffer" where
  "setValidRange s e b = b\<lparr>validRange := (s, e)\<rparr>"

text \<open>
  The two bounds of the valid range are of type \<open>size_t\<close>, 64 bits wide. A caller that
  passes an \<open>int\<close> has it converted: a negative value \<open>v\<close> becomes \<open>2^64 + v\<close>.
\<close>

definition to_size_t :: "int \<Rightarrow> int" where
  "to_size_t v = v mod 2 ^ 64"

text \<open>The configuration and control fields of the streamer that the transforms read.\<close>

record Streamer =
  mRunning :: bool
  mCropWidth :: int
  mCropHeight :: int
  mBin :: bool
  mEnableCompression :: bool

section \<open>C++ arithmetic\<close>

text \<open>
  Integer division and remainder of C++ truncate towards zero: \<open>sdiv\<close> and \<open>smod\<close>.
  A right shift of a signed \<open>int\<close> is arithmetic: \<open>drop_bit\<close> on \<open>int\<close>.
  Signed overflow is undefined behaviour in C++ and is not modelled: an \<open>int\<close> is an
  integer without bound, and so is the \<open>long\<close> that \<open>lround\<close> returns.

  The crop amounts are computed in double precision:
  \<open>lround(0.5f * (mCropWidth/100.0 * buffer.width))\<close>. A finite double is a pair
  \<open>(m, e)\<close> of integers denoting \<open>m * 2 ^ e\<close>. Division and multiplication round the
  exact result to 53 significant bits, ties to even (IEEE 754 binary64, default rounding
  mode; the operands here are far from the exponent limits, which are not modelled).
\<close>

type_synonym dbl = "int \<times> int"

fun bitlength :: "nat \<Rightarrow> nat" where
  "bitlength n = (if n = 0 then 0 else Suc (bitlength (n div 2)))"

declare bitlength.simps [simp del]

definition round_half_even_div :: "int \<Rightarrow> int \<Rightarrow> int" where
  "round_half_even_div a b =
     (let q = a div b; r = a mod b
      in if 2 * r < b then q else if b < 2 * r then q + 1
         else if even q then q else q + 1)"

text \<open>
  \<open>round_ratio n d\<close>: the double nearest to \<open>n / d\<close> for \<open>n \<ge> 0\<close> and \<open>d > 0\<close>. The
  exponent \<open>k\<close> is chosen so that \<open>2 ^ 52 \<le> n / (d * 2 ^ k) < 2 ^ 53\<close>.
\<close>

definition round_ratio :: "int \<Rightarrow> int \<Rightarrow> dbl" where
  "round_ratio n d =
     (if n = 0 then (0, 0)
      else let t = int (bitlength (nat n)) - int (bitlength (nat d));
               l = (if (if 0 \<le> t then d * 2 ^ nat t \<le> n else d \<le> n * 2 ^ nat (- t))
                    then t else t - 1);
               k = l - 52
           in if 0 \<le> k then (round_half_even_div n (d * 2 ^ nat k), k)
              else (round_half_even_div (n * 2 ^ nat (- k)) d, k))"

definition dbl_of_int :: "int \<Rightarrow> dbl" where
  "dbl_of_int i = (i, 0)"

definition dbl_div :: "dbl \<Rightarrow> dbl \<Rightarrow> dbl" where
  "dbl_div x y =
     (let (mx, ex) = x; (my, ey) = y;
          (m, e) = round_ratio \<bar>mx\<bar> \<bar>my\<bar>
      in (sgn mx * sgn my * m, e + ex - ey))"

definition dbl_mult :: "dbl \<Rightarrow> dbl \<Rightarrow> dbl" where
  "dbl_mult x y =
     (let (mx, ex) = x; (my, ey) = y;
          (m, e) = round_ratio \<bar>mx * my\<bar> 1
      in (sgn (mx * my) * m, e + ex + ey))"

definition dbl_half :: dbl where
  "dbl_half = (1, - 1)"

text \<open>\<open>lround\<close>: the nearest integer, halfway cases away from zero.\<close>

definition lround :: "dbl \<Rightarrow> int" where
  "lround x =
     (let (m, e) = x
      in if 0 \<le> e then m * 2 ^ nat e
         else sgn m * ((\<bar>m\<bar> + 2 ^ (nat (- e) - 1)) div 2 ^ nat (- e)))"

text \<open>The real number a double denotes.\<close>

definition dval :: "dbl \<Rightarrow> real" where
  "dval x = of_int (fst x) * 2 powi (snd x)"

text \<open>\<open>lround(0.5f * (percent/100.0 * extent))\<close>, as all three transforms compute it.\<close>

definition halfPercent :: "int \<Rightarrow> int \<Rightarrow> int" where
  "halfPercent percent extent =
     lround (dbl_mult dbl_half
       (dbl_mult (dbl_div (dbl_of_int percent) (dbl_of_int 100)) (dbl_of_int extent)))"

definition horizontalCrop :: "Streamer \<Rightarrow> 'm RawImageBuffer \<Rightarrow> int" where
  "horizontalCrop s b = 4 * (halfPercent (mCropWidth s) (width b) sdiv 4)"

definition verticalCrop :: "Streamer \<Rightarrow> 'm RawImageBuffer \<Rightarrow> int" where
  "verticalCrop s b = 2 * (halfPercent (mCropHeight s) (height b) sdiv 2)"

definition croppedWidth :: "Streamer \<Rightarrow> 'm RawImageBuffer \<Rightarrow> int" where
  "croppedWidth s b = width b - horizontalCrop s b * 2"

definition croppedHeight :: "Streamer \<Rightarrow> 'm RawImageBuffer \<Rightarrow> int" where
  "croppedHeight s b = height b - verticalCrop s b * 2"

section \<open>Pixel codec: the read primitives\<close>

text \<open>
  The operands of the shifts and of the bitwise or are promoted to \<open>int\<close> in C++ and the
  result is converted back to \<open>uint16_t\<close>; a byte shifted left by at most 4 fits in 16
  bits, so the computation is the same on 16-bit words.
\<close>

definition RAW10 :: "bytes \<Rightarrow> int \<Rightarrow> int \<Rightarrow> int \<Rightarrow> 16 word" where
  "RAW10 data x y stride =
     (let X = push_bit 2 (drop_bit 2 x);
          xoffset = y * stride + drop_bit 3 (10 * X);
          p = x - X;
          shift = nat (push_bit 1 p mod 256)
      in push_bit 2 (ucast (data (xoffset + p)))
           OR (drop_bit shift (ucast (data (xoffset + 4))) AND 0x03))"

definition RAW12 :: "bytes \<Rightarrow> int \<Rightarrow> int \<Rightarrow> int \<Rightarrow> 16 word" where
  "RAW12 data x y stride =
     (let X = push_bit 1 (drop_bit 1 x);
          xoffset = y * stride + drop_bit 3 (12 * X);
          p = x - X;
          shift = nat (push_bit 2 p mod 256)
      in push_bit 4 (ucast (data (xoffset + p)))
           OR (drop_bit shift (ucast (data (xoffset + 2))) AND 0x0F))"

definition RAW16 :: "bytes \<Rightarrow> int \<Rightarrow> int \<Rightarrow> int \<Rightarrow> 16 word" where
  "RAW16 data x y stride =
     (let offset = y * stride + x * 2
      in ucast (data offset) OR push_bit 8 (ucast (data (offset + 1))))"

section \<open>Pixel codec: packing a row\<close>

text \<open>
  The uncompressed branch of \<open>cropAndBin_RAW10\<close>: one loop packs \<open>row0\<close>, a second
  loop of the same text packs \<open>row1\<close>. The loop is \<open>packRAW10\<close>, entered at \<open>i = 0\<close>;
  it writes five bytes per round at \<open>offset\<close> and advances \<open>i\<close> by 2.
\<close>

function packRAW10 :: "samples \<Rightarrow> int \<Rightarrow> int \<Rightarrow> bytes \<times> int \<Rightarrow> bytes \<times> int" where
  "packRAW10 row rowSize_2 i (data, offset) =
     (if i < rowSize_2 then
        let p0 = ucast (drop_bit 2 (row i)) :: 8 word;
            p1 = ucast (drop_bit 2 (row (i + rowSize_2))) :: 8 word;
            p2 = ucast (drop_bit 2 (row (i + 1))) :: 8 word;
            p3 = ucast (drop_bit 2 (row (i + rowSize_2 + 1))) :: 8 word;
            upper = ucast (row i AND 0x03)
                      OR ucast (push_bit 2 (row (i + 1) AND 0x03))
                      OR ucast (push_bit 4 (row (i + 2) AND 0x03))
                      OR ucast (push_bit 6 (row (i + 3) AND 0x03)) :: 8 word
        in packRAW10 row rowSize_2 (i + 2)
             (data(offset := p0, offset + 1 := p1, offset + 2 := p2, offset + 3 := p3,
                   offset + 4 := upper),
              offset + 5)
      else (data, offset))"
  by pat_completeness auto
termination
  by (relation "measure (\<lambda>(row, rowSize_2, i, st). nat (rowSize_2 - i))") auto

declare packRAW10.simps [simp del]

text \<open>
  The uncompressed branch of \<open>cropAndBin_RAW12\<close> and of \<open>cropAndBin_RAW16\<close> (the same
  text in both): three bytes per round, \<open>i\<close> advances by 1.
\<close>

function packRAW12 :: "samples \<Rightarrow> int \<Rightarrow> int \<Rightarrow> bytes \<times> int \<Rightarrow> bytes \<times> int" where
  "packRAW12 row rowSize_2 i (data, offset) =
     (if i < rowSize_2 then
        let p0 = row i;
            p1 = row (i + rowSize_2);
            upper = ucast (p0 AND 0x0F) OR ucast (push_bit 4 (p1 AND 0x0F)) :: 8 word
        in packRAW12 row rowSize_2 (i + 1)
             (data(offset := ucast (drop_bit 4 p0), offset + 1 := ucast (drop_bit 4 p1),
                   offset + 2 := upper),
              offset + 3)
      else (data, offset))"
  by pat_completeness auto
termination
  by (relation "measure (\<lambda>(row, rowSize_2, i, st). nat (rowSize_2 - i))") auto

declare packRAW12.simps [simp del]

text \<open>
  The row codec \<open>bitnzpack16\<close> is an external library function:
  \<open>encodeFunc(row.data(), row.size(), data+offset)\<close> writes the encoding of the samples
  at the destination and returns the number of bytes written. It is a parameter here: a
  function from the samples to the bytes it writes.
\<close>

type_synonym codec = "16 word list \<Rightarrow> 8 word list"

definition write_bytes :: "bytes \<Rightarrow> int \<Rightarrow> 8 word list \<Rightarrow> bytes" where
  "write_bytes data offset out =
     (\<lambda>i. if offset \<le> i \<and> i < offset + int (length out) then out ! nat (i - offset)
          else data i)"

definition encodeRow :: "codec \<Rightarrow> samples \<Rightarrow> int \<Rightarrow> bytes \<times> int \<Rightarrow> bytes \<times> int" where
  "encodeRow encodeFunc row n st =
     (let (data, offset) = st;
          out = encodeFunc (map row [0..n - 1])
      in (write_bytes data offset out, offset + int (length out)))"

section \<open>Frame transformer: binning\<close>

text \<open>
  The binning kernel. The source writes this block out twelve times (four positions of
  the 4x4 cell in each of the three \<open>cropAndBin_RAW*\<close> functions); the copies differ in
  the read primitive and in \<open>ix\<close>, \<open>iy\<close> only. Each \<open>p\<close> is a \<open>uint16_t\<close>: the
  shifted sample is cut to 16 bits when it is stored. The sum is taken in \<open>int\<close>, shifted
  right by 4 and cut to 16 bits.
\<close>

definition binPixel ::
  "(bytes \<Rightarrow> int \<Rightarrow> int \<Rightarrow> int \<Rightarrow> 16 word) \<Rightarrow> 'm RawImageBuffer \<Rightarrow> bytes \<Rightarrow> int \<Rightarrow> int \<Rightarrow> 16 word"
where
  "binPixel rd buffer data ix iy =
     (let ix_m2 = max 0 (ix - 2);
          ix_p2 = (ix + 2) smod width buffer;
          iy_m2 = max 0 (iy - 2);
          iy_p2 = (iy + 2) smod height buffer;
          p0 = rd data ix_m2 iy_m2 (rowStride buffer);
          p1 = push_bit 1 (rd data ix iy_m2 (rowStride buffer));
          p2 = rd data ix_p2 iy_m2 (rowStride buffer);
          p3 = push_bit 1 (rd data ix_m2 iy (rowStride buffer));
          p4 = push_bit 2 (rd data ix iy (rowStride buffer));
          p5 = push_bit 1 (rd data ix_p2 iy (rowStride buffer));
          p6 = rd data ix_m2 iy_p2 (rowStride buffer);
          p7 = push_bit 1 (rd data ix iy_p2 (rowStride buffer));
          p8 = rd data ix_p2 iy_p2 (rowStride buffer)
      in word_of_int (drop_bit 4
           (uint p0 + uint p1 + uint p2 + uint p3 + uint p4 + uint p5 + uint p6 + uint p7
              + uint p8)))"

text \<open>
  \<open>cropAndBin_RAW10\<close> declares the two indices into \<open>row0\<close> as \<open>uint16_t\<close>; all other
  row indices are \<open>int\<close>.
\<close>

definition to_uint16 :: "int \<Rightarrow> int" where
  "to_uint16 v = v mod 65536"

text \<open>
  The loop over \<open>x\<close> of one cell row: it fills \<open>row0\<close> (image row \<open>y\<close>) and \<open>row1\<close>
  (image row \<open>y + 1\<close>), even columns in the first half and odd columns in the second.
  \<open>conv\<close> is the conversion of the \<open>row0\<close> indices.
\<close>

function binRowPair ::
  "(bytes \<Rightarrow> int \<Rightarrow> int \<Rightarrow> int \<Rightarrow> 16 word) \<Rightarrow> (int \<Rightarrow> int) \<Rightarrow> 'm RawImageBuffer \<Rightarrow> bytes \<Rightarrow>
   int \<Rightarrow> int \<Rightarrow> int \<Rightarrow> int \<Rightarrow> int \<Rightarrow> samples \<times> samples \<Rightarrow> samples \<times> samples"
where
  "binRowPair rd conv buffer data y xstart xend binnedWidth x (row0, row1) =
     (if x < xend then
        let row0a = row0(conv (drop_bit 2 (x - xstart)) := binPixel rd buffer data x y);
            row0b = row0a(conv (drop_bit 2 (x - xstart) + drop_bit 1 binnedWidth)
                            := binPixel rd buffer data (x + 1) y);
            row1a = row1(drop_bit 2 (x - xstart) := binPixel rd buffer data x (y + 1));
            row1b = row1a(drop_bit 2 (x - xstart) + drop_bit 1 binnedWidth
                            := binPixel rd buffer data (x + 1) (y + 1))
        in binRowPair rd conv buffer data y xstart xend binnedWidth (x + 4) (row0b, row1b)
      else (row0, row1))"
  by pat_completeness auto
termination
  by (relation "measure (\<lambda>(rd, conv, buffer, data, y, xstart, xend, bw, x, rows). nat (xend - x))")
    auto

declare binRowPair.simps [simp del]

text \<open>
  The loop over \<open>y\<close>: bin one cell row from the bytes as they are now, then write the two
  output rows at \<open>offset\<close> of the same bytes, compressed or packed by \<open>pack\<close>.
\<close>

function binLoop ::
  "(bytes \<Rightarrow> int \<Rightarrow> int \<Rightarrow> int \<Rightarrow> 16 word) \<Rightarrow> (int \<Rightarrow> int) \<Rightarrow>
   (samples \<Rightarrow> int \<Rightarrow> int \<Rightarrow> bytes \<times> int \<Rightarrow> bytes \<times> int) \<Rightarrow> codec \<Rightarrow> 'm RawImageBuffer \<Rightarrow>
   int \<Rightarrow> int \<Rightarrow> int \<Rightarrow> int \<Rightarrow> bool \<Rightarrow> int \<Rightarrow> bytes \<times> samples \<times> samples \<times> int \<Rightarrow> bytes \<times> int"
where
  "binLoop rd conv pack encodeFunc buffer yend xstart xend binnedWidth doCompress y
       (data, row0, row1, offset) =
     (if y < yend then
        let (row0', row1') =
              binRowPair rd conv buffer data y xstart xend binnedWidth xstart (row0, row1);
            (data', offset') =
              (if doCompress then
                 encodeRow encodeFunc row1' binnedWidth
                   (encodeRow encodeFunc row0' binnedWidth (data, offset))
               else
                 let rowSize_2 = binnedWidth div 2
                 in pack row1' rowSize_2 0 (pack row0' rowSize_2 0 (data, offset)))
        in binLoop rd conv pack encodeFunc buffer yend xstart xend binnedWidth doCompress
             (y + 4) (data', row0', row1', offset')
      else (data, offset))"
  by pat_completeness auto
termination
  by (relation "measure (\<lambda>(rd, conv, pack, enc, buffer, yend, xstart, xend, bw, dc, y, st).
        nat (yend - y))") auto

declare binLoop.simps [simp del]

text \<open>
  The three functions of the source. Both rows start zero-filled
  (\<open>std::vector<uint16_t> row0(binnedWidth)\<close>), \<open>offset\<close> starts at 0, and the result is
  the bytes as rewritten together with the final \<open>offset\<close>.
\<close>

definition cropAndBin_RAW10 ::
  "codec \<Rightarrow> 'm RawImageBuffer \<Rightarrow> bytes \<Rightarrow> int \<Rightarrow> int \<Rightarrow> int \<Rightarrow> int \<Rightarrow> int \<Rightarrow> bool \<Rightarrow> bytes \<times> int"
where
  "cropAndBin_RAW10 encodeFunc buffer data ystart yend xstart xend binnedWidth doCompress =
     binLoop RAW10 to_uint16 packRAW10 encodeFunc buffer yend xstart xend binnedWidth
       doCompress ystart (data, \<lambda>i. 0, \<lambda>i. 0, 0)"

definition cropAndBin_RAW12 ::
  "codec \<Rightarrow> 'm RawImageBuffer \<Rightarrow> bytes \<Rightarrow> int \<Rightarrow> int \<Rightarrow> int \<Rightarrow> int \<Rightarrow> int \<Rightarrow> bool \<Rightarrow> bytes \<times> int"
where
  "cropAndBin_RAW12 encodeFunc buffer data ystart yend xstart xend binnedWidth doCompress =
     binLoop RAW12 (\<lambda>v. v) packRAW12 encodeFunc buffer yend xstart xend binnedWidth
       doCompress ystart (data, \<lambda>i. 0, \<lambda>i. 0, 0)"

definition cropAndBin_RAW16 ::
  "codec \<Rightarrow> 'm RawImageBuffer \<Rightarrow> bytes \<Rightarrow> int \<Rightarrow> int \<Rightarrow> int \<Rightarrow> int \<Rightarrow> int \<Rightarrow> bool \<Rightarrow> bytes \<times> int"
where
  "cropAndBin_RAW16 encodeFunc buffer data ystart yend xstart xend binnedWidth doCompress =
     binLoop RAW16 (\<lambda>v. v) packRAW12 encodeFunc buffer yend xstart xend binnedWidth
       doCompress ystart (data, \<lambda>i. 0, \<lambda>i. 0, 0)"

text \<open>
  Constructing a \<open>std::vector\<close> with a negative \<open>int\<close> size converts the size to a huge
  \<open>size_t\<close> and throws; nothing in the streamer catches it. That is the one error value.
  Undefined behaviour (a read or write outside the allocation, a \<open>memmove\<close> with a
  negative length) is not modelled.
\<close>

datatype error = LengthError

text \<open>
  \<open>cropAndBin\<close>. The two vectors at its head are constructed before the data region is
  locked. The chain of \<open>if\<close>s over the pixel format yields the rewritten bytes and the end
  offset, or nothing for an unsupported format, where the function unlocks and returns.
\<close>

definition cropAndBin :: "codec \<Rightarrow> Streamer \<Rightarrow> 'm RawImageBuffer \<Rightarrow> error + 'm RawImageBuffer" where
  "cropAndBin encodeFunc s buffer =
     (let horizontalCrop = horizontalCrop s buffer;
          verticalCrop = verticalCrop s buffer;
          croppedWidth = croppedWidth s buffer;
          croppedHeight = croppedHeight s buffer;
          ystart = verticalCrop;
          yend = height buffer - ystart;
          xstart = horizontalCrop;
          xend = width buffer - horizontalCrop
      in if croppedWidth sdiv 2 < 0 then Inl LengthError
         else
           let b1 = lock buffer;
               data = bdata b1;
               res =
                 (case pixelFormat b1 of
                    PF_RAW10 \<Rightarrow> Some (cropAndBin_RAW10 encodeFunc b1 data ystart yend xstart xend
                                  (croppedWidth sdiv 2) (mEnableCompression s))
                  | PF_RAW12 \<Rightarrow> Some (cropAndBin_RAW12 encodeFunc b1 data ystart yend xstart xend
                                  (croppedWidth sdiv 2) (mEnableCompression s))
                  | PF_RAW16 \<Rightarrow> Some (cropAndBin_RAW16 encodeFunc b1 data ystart yend xstart xend
                                  (croppedWidth sdiv 2) (mEnableCompression s))
                  | PF_OTHER t \<Rightarrow> None)
           in case res of
                None \<Rightarrow> Inr (unlock b1)
              | Some (data', end) \<Rightarrow>
                  let b2 = unlock (b1\<lparr>bdata := data'\<rparr>);
                      b3 = b2\<lparr>width := croppedWidth sdiv 2, height := croppedHeight sdiv 2,
                             isBinned := True\<rparr>;
                      b4 = (if mEnableCompression s then
                              b3\<lparr>pixelFormat := PF_RAW16, isCompressed := True,
                                 compressionType := BITNZPACK_2, rowStride := 2 * width b3\<rparr>
                            else
                              let b3' = b3\<lparr>rowStride :=
                                             (if pixelFormat b3 = PF_RAW10
                                              then (10 * width b3) sdiv 8
                                              else (12 * width b3) sdiv 8),
                                           isCompressed := False,
                                           compressionType := UNCOMPRESSED\<rparr>
                              in if pixelFormat b3' = PF_RAW16
                                 then b3'\<lparr>pixelFormat := PF_RAW12\<rparr> else b3')
                  in Inr (setValidRange 0 end b4))"

section \<open>Frame transformer: crop and compress\<close>

text \<open>
  The loop over \<open>x\<close> of \<open>cropAndCompress\<close> (written out once per pixel format, with the
  read primitive as the only difference): even columns go to the first half of \<open>row\<close>,
  odd columns to the second.
\<close>

function splitRow ::
  "(bytes \<Rightarrow> int \<Rightarrow> int \<Rightarrow> int \<Rightarrow> 16 word) \<Rightarrow> 'm RawImageBuffer \<Rightarrow> bytes \<Rightarrow> int \<Rightarrow> int \<Rightarrow> int \<Rightarrow>
   int \<Rightarrow> int \<Rightarrow> samples \<Rightarrow> samples"
where
  "splitRow rd buffer data y xstart xend croppedWidth_2 x row =
     (if x < xend then
        let p0 = rd data x y (rowStride buffer);
            p1 = rd data (x + 1) y (rowStride buffer);
            X = drop_bit 1 (x - xstart)
        in splitRow rd buffer data y xstart xend croppedWidth_2 (x + 2)
             (row(X := p0, croppedWidth_2 + X := p1))
      else row)"
  by pat_completeness auto
termination
  by (relation "measure (\<lambda>(rd, buffer, data, y, xstart, xend, cw2, x, row). nat (xend - x))")
    auto

declare splitRow.simps [simp del]

text \<open>The loop over \<open>y\<close>: split one row, encode it at \<open>offset\<close> of the same bytes.\<close>

function compressRows ::
  "(bytes \<Rightarrow> int \<Rightarrow> int \<Rightarrow> int \<Rightarrow> 16 word) \<Rightarrow> codec \<Rightarrow> 'm RawImageBuffer \<Rightarrow> int \<Rightarrow> int \<Rightarrow> int \<Rightarrow>
   int \<Rightarrow> int \<Rightarrow> bytes \<times> samples \<times> int \<Rightarrow> bytes \<times> int"
where
  "compressRows rd encodeFunc buffer yend xstart xend rowWidth y (data, row, offset) =
     (if y < yend then
        let row' = splitRow rd buffer data y xstart xend (drop_bit 1 rowWidth) xstart row;
            (data', offset') = encodeRow encodeFunc row' rowWidth (data, offset)
        in compressRows rd encodeFunc buffer yend xstart xend rowWidth (y + 1)
             (data', row', offset')
      else (data, offset))"
  by pat_completeness auto
termination
  by (relation "measure (\<lambda>(rd, enc, buffer, yend, xstart, xend, cw, y, st). nat (yend - y))")
    auto

declare compressRows.simps [simp del]

text \<open>
  \<open>cropAndCompress\<close>. The data region is locked first; the vector \<open>row(croppedWidth)\<close>
  is constructed after that.
\<close>

definition cropAndCompress ::
  "codec \<Rightarrow> Streamer \<Rightarrow> 'm RawImageBuffer \<Rightarrow> error + 'm RawImageBuffer"
where
  "cropAndCompress encodeFunc s buffer =
     (let horizontalCrop = horizontalCrop s buffer;
          verticalCrop = verticalCrop s buffer;
          croppedWidth = croppedWidth s buffer;
          croppedHeight = croppedHeight s buffer;
          b1 = lock buffer;
          data = bdata b1;
          xstart = horizontalCrop;
          xend = width b1 - xstart;
          ystart = verticalCrop;
          yend = height b1 - ystart
      in if croppedWidth < 0 then Inl LengthError
         else
           let compressionType = BITNZPACK_2;
               res =
                 (case pixelFormat b1 of
                    PF_RAW10 \<Rightarrow> Some (compressRows RAW10 encodeFunc b1 yend xstart xend croppedWidth
                                  ystart (data, \<lambda>i. 0, 0))
                  | PF_RAW12 \<Rightarrow> Some (compressRows RAW12 encodeFunc b1 yend xstart xend croppedWidth
                                  ystart (data, \<lambda>i. 0, 0))
                  | PF_RAW16 \<Rightarrow> Some (compressRows RAW16 encodeFunc b1 yend xstart xend croppedWidth
                                  ystart (data, \<lambda>i. 0, 0))
                  | PF_OTHER t \<Rightarrow> None)
           in case res of
                None \<Rightarrow> Inr (unlock b1)
              | Some (data', offset) \<Rightarrow>
                  let b2 = unlock (b1\<lparr>bdata := data'\<rparr>);
                      b3 = b2\<lparr>pixelFormat := PF_RAW16, rowStride := croppedWidth * 2,
                             width := croppedWidth, height := croppedHeight,
                             isCompressed := True, compressionType := compressionType\<rparr>
                  in Inr (setValidRange 0 offset b3))"

section \<open>Frame transformer: crop\<close>

text \<open>\<open>std::memmove\<close>: the source bytes are read before any is written.\<close>

definition memmove :: "bytes \<Rightarrow> int \<Rightarrow> int \<Rightarrow> int \<Rightarrow> bytes" where
  "memmove data dst src n = (\<lambda>i. if dst \<le> i \<and> i < dst + n then data (src + (i - dst)) else data i)"

text \<open>
  The row loop of the RAW10 and of the RAW12 branch of \<open>crop\<close>; \<open>xstart\<close> is the byte
  offset of the first kept column as the branch computes it.
\<close>

function moveRows :: "int \<Rightarrow> int \<Rightarrow> int \<Rightarrow> int \<Rightarrow> int \<Rightarrow> int \<Rightarrow> bytes \<Rightarrow> bytes" where
  "moveRows stride croppedRowStride xstart ystart yend y data =
     (if y < yend then
        let srcOffset = stride * y;
            dstOffset = croppedRowStride * (y - ystart)
        in moveRows stride croppedRowStride xstart ystart yend (y + 1)
             (memmove data dstOffset (srcOffset + xstart) croppedRowStride)
      else data)"
  by pat_completeness auto
termination
  by (relation "measure (\<lambda>(stride, cs, xstart, ystart, yend, y, data). nat (yend - y))") auto

declare moveRows.simps [simp del]

text \<open>The RAW16 branch of \<open>crop\<close>: the two loops that repack the kept samples as RAW12.\<close>

function pack16Row :: "int \<Rightarrow> int \<Rightarrow> int \<Rightarrow> int \<Rightarrow> bytes \<times> int \<Rightarrow> bytes \<times> int" where
  "pack16Row stride xend y x (data, dstOffset) =
     (if x < xend then
        let p0 = RAW16 data x y stride;
            p1 = RAW16 data (x + 1) y stride;
            upper = ucast (p0 AND 0x0F) OR ucast (push_bit 4 (p1 AND 0x0F)) :: 8 word
        in pack16Row stride xend y (x + 2)
             (data(dstOffset := ucast (drop_bit 4 p0), dstOffset + 1 := ucast (drop_bit 4 p1),
                   dstOffset + 2 := upper),
              dstOffset + 3)
      else (data, dstOffset))"
  by pat_completeness auto
termination
  by (relation "measure (\<lambda>(stride, xend, y, x, st). nat (xend - x))") auto

declare pack16Row.simps [simp del]

function pack16Rows :: "int \<Rightarrow> int \<Rightarrow> int \<Rightarrow> int \<Rightarrow> int \<Rightarrow> bytes \<times> int \<Rightarrow> bytes \<times> int" where
  "pack16Rows stride xstart xend yend y st =
     (if y < yend then
        pack16Rows stride xstart xend yend (y + 1) (pack16Row stride xend y xstart st)
      else st)"
  by pat_completeness auto
termination
  by (relation "measure (\<lambda>(stride, xstart, xend, yend, y, st). nat (yend - y))") auto

declare pack16Rows.simps [simp del]

definition crop :: "Streamer \<Rightarrow> 'm RawImageBuffer \<Rightarrow> 'm RawImageBuffer" where
  "crop s buffer =
     (if mCropWidth s = 0 \<and> mCropHeight s = 0 \<and> pixelFormat buffer \<noteq> PF_RAW16 then buffer
      else
        let horizontalCrop = horizontalCrop s buffer;
            verticalCrop = verticalCrop s buffer;
            croppedWidth = croppedWidth s buffer;
            croppedHeight = croppedHeight s buffer;
            b1 = lock buffer;
            data = bdata b1;
            ystart = verticalCrop;
            yend = height b1 - ystart;
            res =
              (case pixelFormat b1 of
                 PF_RAW10 \<Rightarrow>
                   let croppedRowStride = (10 * croppedWidth) sdiv 8
                   in Some (b1\<lparr>bdata := moveRows (rowStride b1) croppedRowStride
                                           ((10 * horizontalCrop) sdiv 8) ystart yend ystart data\<rparr>,
                            croppedRowStride)
               | PF_RAW12 \<Rightarrow>
                   let croppedRowStride = (12 * croppedWidth) sdiv 8
                   in Some (b1\<lparr>bdata := moveRows (rowStride b1) croppedRowStride
                                           ((10 * horizontalCrop) sdiv 8) ystart yend ystart data\<rparr>,
                            croppedRowStride)
               | PF_RAW16 \<Rightarrow>
                   let croppedRowStride = (12 * croppedWidth) sdiv 8;
                       (data', dstOffset) =
                         pack16Rows (rowStride b1) horizontalCrop (width b1 - horizontalCrop) yend
                           ystart (data, 0)
                   in Some (b1\<lparr>bdata := data', pixelFormat := PF_RAW12\<rparr>, croppedRowStride)
               | PF_OTHER t \<Rightarrow> None)
        in case res of
             None \<Rightarrow> unlock b1
           | Some (b2, croppedRowStride) \<Rightarrow>
               let b3 = unlock b2;
                   b4 = b3\<lparr>rowStride := croppedRowStride, width := croppedWidth,
                          height := croppedHeight, isCompressed := False,
                          compressionType := UNCOMPRESSED\<rparr>
               in setValidRange 0 (to_size_t (rowStride b4 * height b4)) b4)"

section \<open>Streamer\<close>

definition processBuffer ::
  "codec \<Rightarrow> Streamer \<Rightarrow> 'm RawImageBuffer \<Rightarrow> error + 'm RawImageBuffer"
where
  "processBuffer encodeFunc s buffer =
     (if mBin s then cropAndBin encodeFunc s buffer
      else if mEnableCompression s then cropAndCompress encodeFunc s buffer
      else Inr (crop s buffer))"

definition setCropAmount :: "int \<Rightarrow> int \<Rightarrow> Streamer \<Rightarrow> Streamer" where
  "setCropAmount w h s = (if \<not> mRunning s then s\<lparr>mCropHeight := h, mCropWidth := w\<rparr> else s)"

definition setBin :: "bool \<Rightarrow> Streamer \<Rightarrow> Streamer" where
  "setBin bin s = s\<lparr>mBin := bin\<rparr>"

text \<open>
  One round of the loop of \<open>doProcess\<close>, run by one worker with no other thread
  interleaved: the two queues are lists, \<open>wait_dequeue_timed\<close> takes the head of
  \<open>mUnprocessedBuffers\<close> or times out on an empty queue, and \<open>enqueue\<close> appends to
  \<open>mReadyBuffers\<close>.
\<close>

record 'm Queues =
  mUnprocessedBuffers :: "'m RawImageBuffer list"
  mReadyBuffers :: "'m RawImageBuffer list"

definition doProcess_round :: "codec \<Rightarrow> Streamer \<Rightarrow> 'm Queues \<Rightarrow> error + 'm Queues" where
  "doProcess_round encodeFunc s q =
     (if mRunning s then
        (case mUnprocessedBuffers q of
           [] \<Rightarrow> Inr q
         | buffer # rest \<Rightarrow>
             (case processBuffer encodeFunc s buffer of
                Inl e \<Rightarrow> Inl e
              | Inr buffer' \<Rightarrow>
                  Inr (q\<lparr>mUnprocessedBuffers := rest,
                         mReadyBuffers := mReadyBuffers q @ [buffer']\<rparr>)))
      else Inr q)"

section \<open>Streamer: the threads\<close>

text \<open>
  The threads of a started streamer, interleaved. A process thread runs \<open>doProcess\<close>,
  an IO thread runs \<open>doStream\<close>; each is at one of the places of its loop, and a step
  of a thread runs it up to its next access to a queue or to \<open>mRunning\<close>. The queues
  are lists: \<open>enqueue\<close> appends, \<open>wait_dequeue_timed\<close> takes the head or times out on
  an empty queue, \<open>try_dequeue\<close> takes the head or fails.

  A process thread: about to test \<open>mRunning\<close>; waiting on \<open>mUnprocessedBuffers\<close>;
  holding a dequeued frame that \<open>processBuffer\<close> has not yet been run on; holding the
  processed frame before \<open>mReadyBuffers.enqueue\<close>; returned.
\<close>

datatype 'm ProcessThread =
    P_Test
  | P_Wait
  | P_Process "'m RawImageBuffer"
  | P_Enqueue "'m RawImageBuffer"
  | P_Done

text \<open>
  An IO thread: about to test \<open>mRunning\<close>; waiting on \<open>mReadyBuffers\<close>; in the loop that
  flushes the ready frames; in the loop that flushes the unprocessed frames; returned,
  its container committed.
\<close>

datatype IoThread = W_Test | W_Wait | W_FlushReady | W_FlushUnprocessed | W_Done

text \<open>
  The streamer while it runs. Each IO thread has its own container, the list of the
  frames added to it. \<open>transformedFrames\<close> counts the returns of \<open>processBuffer\<close>;
  \<open>terminated\<close> is set when \<open>processBuffer\<close> throws in a thread, which ends the program.
\<close>

record 'm Run =
  streamer :: Streamer
  queues :: "'m Queues"
  mProcessThreads :: "'m ProcessThread list"
  mIoThreads :: "(IoThread \<times> 'm RawImageBuffer list) list"
  mWrittenFrames :: nat
  mAcceptedFrames :: nat
  transformedFrames :: nat
  terminated :: bool

text \<open>
  \<open>start\<close> on a streamer that is not running and whose queues are empty: one IO thread
  per file descriptor, \<open>max numThreads 1\<close> process threads. Without a file descriptor it
  returns at once.
\<close>

definition start :: "nat \<Rightarrow> bool \<Rightarrow> int \<Rightarrow> Streamer \<Rightarrow> 'm Run" where
  "start fds enableCompression numThreads s =
     (if fds = 0 then
        \<lparr>streamer = s\<lparr>mRunning := False\<rparr>,
         queues = \<lparr>mUnprocessedBuffers = [], mReadyBuffers = []\<rparr>,
         mProcessThreads = [], mIoThreads = [],
         mWrittenFrames = 0, mAcceptedFrames = 0, transformedFrames = 0, terminated = False\<rparr>
      else
        \<lparr>streamer = s\<lparr>mRunning := True, mEnableCompression := enableCompression\<rparr>,
         queues = \<lparr>mUnprocessedBuffers = [], mReadyBuffers = []\<rparr>,
         mProcessThreads = replicate (nat (max numThreads 1)) P_Test,
         mIoThreads = replicate fds (W_Test, []),
         mWrittenFrames = 0, mAcceptedFrames = 0, transformedFrames = 0, terminated = False\<rparr>)"

definition add :: "'m RawImageBuffer \<Rightarrow> 'm Run \<Rightarrow> 'm Run" where
  "add buffer r =
     r\<lparr>queues := (queues r)\<lparr>mUnprocessedBuffers := mUnprocessedBuffers (queues r) @ [buffer]\<rparr>,
       mAcceptedFrames := Suc (mAcceptedFrames r)\<rparr>"

text \<open>
  \<open>stop\<close> clears \<open>mRunning\<close> and then joins the threads; joining is waiting, and
  changes nothing.
\<close>

definition stop :: "'m Run \<Rightarrow> 'm Run" where
  "stop r = r\<lparr>streamer := (streamer r)\<lparr>mRunning := False\<rparr>\<rparr>"

text \<open>One step of process thread \<open>i\<close>, in \<open>doProcess\<close>.\<close>

definition doProcess :: "codec \<Rightarrow> nat \<Rightarrow> 'm Run \<Rightarrow> 'm Run" where
  "doProcess encodeFunc i r =
     (if terminated r \<or> length (mProcessThreads r) \<le> i then r
      else
        (case mProcessThreads r ! i of
           P_Test \<Rightarrow>
             r\<lparr>mProcessThreads :=
                 (mProcessThreads r)[i := if mRunning (streamer r) then P_Wait else P_Done]\<rparr>
         | P_Wait \<Rightarrow>
             (case mUnprocessedBuffers (queues r) of
                [] \<Rightarrow> r\<lparr>mProcessThreads := (mProcessThreads r)[i := P_Test]\<rparr>
              | buffer # rest \<Rightarrow>
                  r\<lparr>queues := (queues r)\<lparr>mUnprocessedBuffers := rest\<rparr>,
                    mProcessThreads := (mProcessThreads r)[i := P_Process buffer]\<rparr>)
         | P_Process buffer \<Rightarrow>
             (case processBuffer encodeFunc (streamer r) buffer of
                Inl e \<Rightarrow> r\<lparr>terminated := True\<rparr>
              | Inr buffer' \<Rightarrow>
                  r\<lparr>mProcessThreads := (mProcessThreads r)[i := P_Enqueue buffer'],
                    transformedFrames := Suc (transformedFrames r)\<rparr>)
         | P_Enqueue buffer \<Rightarrow>
             r\<lparr>queues := (queues r)\<lparr>mReadyBuffers := mReadyBuffers (queues r) @ [buffer]\<rparr>,
               mProcessThreads := (mProcessThreads r)[i := P_Test]\<rparr>
         | P_Done \<Rightarrow> r))"

text \<open>
  One step of IO thread \<open>j\<close>, in \<open>doStream\<close>. After a dequeue the frame is the
  thread's own, so dequeuing, \<open>container->add\<close> and \<open>mWrittenFrames++\<close> are one step;
  in the last loop \<open>processBuffer\<close> runs between the dequeue and the write.
\<close>

definition doStream :: "codec \<Rightarrow> nat \<Rightarrow> 'm Run \<Rightarrow> 'm Run" where
  "doStream encodeFunc j r =
     (if terminated r \<or> length (mIoThreads r) \<le> j then r
      else
        (let container = snd (mIoThreads r ! j) in
         case fst (mIoThreads r ! j) of
           W_Test \<Rightarrow>
             r\<lparr>mIoThreads :=
                 (mIoThreads r)[j := (if mRunning (streamer r) then W_Wait else W_FlushReady,
                                      container)]\<rparr>
         | W_Wait \<Rightarrow>
             (case mReadyBuffers (queues r) of
                [] \<Rightarrow> r\<lparr>mIoThreads := (mIoThreads r)[j := (W_Test, container)]\<rparr>
              | buffer # rest \<Rightarrow>
                  r\<lparr>queues := (queues r)\<lparr>mReadyBuffers := rest\<rparr>,
                    mIoThreads := (mIoThreads r)[j := (W_Test, container @ [buffer])],
                    mWrittenFrames := Suc (mWrittenFrames r)\<rparr>)
         | W_FlushReady \<Rightarrow>
             (case mReadyBuffers (queues r) of
                [] \<Rightarrow> r\<lparr>mIoThreads := (mIoThreads r)[j := (W_FlushUnprocessed, container)]\<rparr>
              | buffer # rest \<Rightarrow>
                  r\<lparr>queues := (queues r)\<lparr>mReadyBuffers := rest\<rparr>,
                    mIoThreads := (mIoThreads r)[j := (W_FlushReady, container @ [buffer])],
                    mWrittenFrames := Suc (mWrittenFrames r)\<rparr>)
         | W_FlushUnprocessed \<Rightarrow>
             (case mUnprocessedBuffers (queues r) of
                [] \<Rightarrow> r\<lparr>mIoThreads := (mIoThreads r)[j := (W_Done, container)]\<rparr>
              | buffer # rest \<Rightarrow>
                  (case processBuffer encodeFunc (streamer r) buffer of
                     Inl e \<Rightarrow> r\<lparr>queues := (queues r)\<lparr>mUnprocessedBuffers := rest\<rparr>,
                                terminated := True\<rparr>
                   | Inr buffer' \<Rightarrow>
                       r\<lparr>queues := (queues r)\<lparr>mUnprocessedBuffers := rest\<rparr>,
                         mIoThreads :=
                           (mIoThreads r)[j := (W_FlushUnprocessed, container @ [buffer'])],
                         mWrittenFrames := Suc (mWrittenFrames r),
                         transformedFrames := Suc (transformedFrames r)\<rparr>))
         | W_Done \<Rightarrow> r))"

text \<open>
  A run is a schedule: the calls of the producer and the steps of the threads, in the
  order in which they take effect.
\<close>

datatype 'm event = Add "'m RawImageBuffer" | Stop | Process nat | Stream nat

fun step :: "codec \<Rightarrow> 'm Run \<Rightarrow> 'm event \<Rightarrow> 'm Run" where
  "step encodeFunc r (Add buffer) = add buffer r"
| "step encodeFunc r Stop = stop r"
| "step encodeFunc r (Process i) = doProcess encodeFunc i r"
| "step encodeFunc r (Stream j) = doStream encodeFunc j r"

definition run :: "codec \<Rightarrow> 'm event list \<Rightarrow> 'm Run \<Rightarrow> 'm Run" where
  "run encodeFunc schedule r = foldl (step encodeFunc) r schedule"

text \<open>Every thread has returned.\<close>

definition joined :: "'m Run \<Rightarrow> bool" where
  "joined r \<longleftrightarrow> list_all (\<lambda>p. p = P_Done) (mProcessThreads r)
                \<and> list_all (\<lambda>w. fst w = W_Done) (mIoThreads r)"

text \<open>The frames written, over all containers.\<close>

definition writtenFrames :: "'m Run \<Rightarrow> 'm RawImageBuffer list" where
  "writtenFrames r = concat (map snd (mIoThreads r))"

text \<open>The process threads that hold a processed frame not yet enqueued.\<close>

definition enqueuing :: "'m Run \<Rightarrow> nat" where
  "enqueuing r =
     length (filter (\<lambda>p. case p of P_Enqueue buffer \<Rightarrow> True | _ \<Rightarrow> False) (mProcessThreads r))"

text \<open>
  Every processed frame is written, waits in \<open>mReadyBuffers\<close> or is held by a process
  thread about to enqueue it; \<open>mWrittenFrames\<close> counts the frames in the containers.
\<close>

definition accounted :: "'m Run \<Rightarrow> bool" where
  "accounted r \<longleftrightarrow>
     transformedFrames r = mWrittenFrames r + length (mReadyBuffers (queues r)) + enqueuing r
     \<and> mWrittenFrames r = length (writtenFrames r)"

section \<open>The rows handed to the codec\<close>






section \<open>The binning rule in the words of the specification\<close>

text \<open>
  The value the specification gives for the binned sample at \<open>(ix, iy)\<close>: the sum of the
  like-colour 3x3 neighbourhood (offsets -2, 0, +2 in x and in y) with the weights
  1 2 1 / 2 4 2 / 1 2 1, divided by 16; the left and top neighbour index clamped to 0, the
  right and bottom one taken \<open>% width\<close> resp. \<open>% height\<close>.
\<close>

definition binSpec ::
  "(bytes \<Rightarrow> int \<Rightarrow> int \<Rightarrow> int \<Rightarrow> 16 word) \<Rightarrow> 'm RawImageBuffer \<Rightarrow> bytes \<Rightarrow> int \<Rightarrow> int \<Rightarrow> int"
where
  "binSpec rd buffer data ix iy =
     (let xl = max 0 (ix - 2); xr = (ix + 2) smod width buffer;
          yt = max 0 (iy - 2); yb = (iy + 2) smod height buffer;
          s = (\<lambda>x y. uint (rd data x y (rowStride buffer)))
      in (1 * s xl yt + 2 * s ix yt + 1 * s xr yt
        + 2 * s xl iy + 4 * s ix iy + 2 * s xr iy
        + 1 * s xl yb + 2 * s ix yb + 1 * s xr yb) div 16)"

text \<open>
  \<open>cellMatchesSpec\<close>: after the loop over \<open>x\<close> of one cell row, the four samples that
  the cell at column \<open>x\<close> contributed to \<open>row0\<close> and \<open>row1\<close> are the values of
  \<open>binSpec\<close>.
\<close>

definition cellMatchesSpec ::
  "(bytes \<Rightarrow> int \<Rightarrow> int \<Rightarrow> int \<Rightarrow> 16 word) \<Rightarrow> (int \<Rightarrow> int) \<Rightarrow> 'm RawImageBuffer \<Rightarrow> bytes \<Rightarrow>
   int \<Rightarrow> int \<Rightarrow> int \<Rightarrow> int \<Rightarrow> samples \<times> samples \<Rightarrow> int \<Rightarrow> bool"
where
  "cellMatchesSpec rd conv buffer data y xstart xend binnedWidth rows x \<longleftrightarrow>
     (let (row0, row1) = binRowPair rd conv buffer data y xstart xend binnedWidth xstart rows;
          X = (x - xstart) div 4;
          half = binnedWidth div 2
      in uint (row0 X) = binSpec rd buffer data x y
       \<and> uint (row0 (X + half)) = binSpec rd buffer data (x + 1) y
       \<and> uint (row1 X) = binSpec rd buffer data x (y + 1)
       \<and> uint (row1 (X + half)) = binSpec rd buffer data (x + 1) (y + 1))"

text \<open>
  The Bayer mosaic is a 2x2 pattern: the colour of a pixel is given by the parities of its
  coordinates.
\<close>

definition bayerColor :: "int \<Rightarrow> int \<Rightarrow> int \<times> int" where
  "bayerColor x y = (x mod 2, y mod 2)"

section \<open>Frames and configurations used in examples\<close>

text \<open>
  \<open>sameFrame b b'\<close>: the two frames agree on the bytes, the valid range, the geometry,
  the format flags and the metadata, that is, on everything but the lock bookkeeping.
\<close>

definition sameFrame :: "'m RawImageBuffer \<Rightarrow> 'm RawImageBuffer \<Rightarrow> bool" where
  "sameFrame b b' \<longleftrightarrow>
     bdata b' = bdata b \<and> validRange b' = validRange b \<and> width b' = width b \<and>
     height b' = height b \<and> rowStride b' = rowStride b \<and> pixelFormat b' = pixelFormat b \<and>
     compressionType b' = compressionType b \<and> isBinned b' = isBinned b \<and>
     isCompressed b' = isCompressed b \<and> metadata b' = metadata b"

definition frame :: "PixelFormat \<Rightarrow> int \<Rightarrow> int \<Rightarrow> int \<Rightarrow> bytes \<Rightarrow> unit RawImageBuffer" where
  "frame fmt w h stride data =
     \<lparr>bdata = data, validRange = (0, stride * h), locked = False, lockCalls = 0,
      width = w, height = h, rowStride = stride, pixelFormat = fmt,
      compressionType = UNCOMPRESSED, isBinned = False, isCompressed = False,
      metadata = ()\<rparr>"

definition config :: "bool \<Rightarrow> int \<Rightarrow> int \<Rightarrow> bool \<Rightarrow> bool \<Rightarrow> Streamer" where
  "config running cw ch bin compress =
     \<lparr>mRunning = running, mCropWidth = cw, mCropHeight = ch, mBin = bin,
      mEnableCompression = compress\<rparr>"

text \<open>A stand-in for the row codec: every sample as two bytes, low byte first.\<close>

definition plainCodec :: codec where
  "plainCodec row = concat (map (\<lambda>v. [ucast v, ucast (drop_bit 8 v)]) row)"

definition zeroRow :: samples where
  "zeroRow = (\<lambda>i. 0)"

definition zeroBytes :: bytes where
  "zeroBytes = (\<lambda>i. 0)"

text \<open>A RAW16 frame, 8 by 8, every sample \<open>0x4000\<close>.\<close>

definition brightFrame :: "unit RawImageBuffer" where
  "brightFrame = frame PF_RAW16 8 8 16 (\<lambda>i. if even i then 0 else 0x40)"

text \<open>A binned RAW10 row of width 4: even half \<open>[0, 1]\<close>, odd half \<open>[0, 0]\<close>.\<close>

definition stepRow :: samples where
  "stepRow = zeroRow(1 := 1)"

text \<open>A RAW12 frame, 16 by 1, zero but for the high byte of pixel 4.\<close>

definition markedFrame12 :: "unit RawImageBuffer" where
  "markedFrame12 = frame PF_RAW12 16 1 24 (zeroBytes(6 := 1))"

text \<open>A RAW10 frame, 8 by 4, zero but for pixel \<open>(4, 0)\<close>, which is 4.\<close>

definition spotFrame :: "unit RawImageBuffer" where
  "spotFrame = frame PF_RAW10 8 4 10 (zeroBytes(5 := 1))"

text \<open>
  A RAW12 frame, 4 by 6, zero but for the high byte of pixel \<open>(0, 0)\<close>, which is
  \<open>0xFF0 = 4080\<close>; and its bytes after the first block row of \<open>cropAndBin\<close> has
  written its two output rows over bytes 0 to 5.
\<close>

definition wrapFrame :: "unit RawImageBuffer" where
  "wrapFrame = frame PF_RAW12 4 6 6 (zeroBytes(0 := 0xFF))"

definition wrapBytes1 :: bytes where
  "wrapBytes1 = zeroBytes(0 := 0x8F, 1 := 0x2F, 2 := 0xD7, 3 := 0x2F, 4 := 0x0F, 5 := 0xFD)"

text \<open>
  One frame, one process thread, one IO thread. The process thread dequeues the frame;
  \<open>stop\<close> is called; the IO thread leaves its loop, finds both queues empty and commits;
  the process thread then finishes the frame and enqueues it.
\<close>

definition lateFrame :: "unit RawImageBuffer" where
  "lateFrame = frame PF_RAW10 8 4 10 (\<lambda>i. 0)"

definition lateSchedule :: "unit event list" where
  "lateSchedule =
     [Add lateFrame, Process 0, Process 0, Stop, Stream 0, Stream 0, Stream 0,
      Process 0, Process 0, Process 0]"

section \<open>Crop geometry\<close>

lemma sdiv_nonneg_eq: "0 \<le> a \<Longrightarrow> 0 < b \<Longrightarrow> (a::int) sdiv b = a div b"
  by (simp add: signed_divide_int_def sgn_if)

lemma halfPercent_zero: "halfPercent 0 w = 0"
  by (simp add: halfPercent_def dbl_mult_def dbl_div_def dbl_of_int_def dbl_half_def
      lround_def round_ratio_def Let_def)

lemma horizontalCrop_zero: "mCropWidth s = 0 \<Longrightarrow> horizontalCrop s b = 0"
  by (simp add: horizontalCrop_def halfPercent_zero signed_divide_int_def)

lemma verticalCrop_zero: "mCropHeight s = 0 \<Longrightarrow> verticalCrop s b = 0"
  by (simp add: verticalCrop_def halfPercent_zero signed_divide_int_def)

lemma even_sdiv2: "even (a::int) \<Longrightarrow> a sdiv 2 = a div 2"
  by (auto simp add: signed_divide_int_def sgn_if elim!: evenE)

lemma horizontalCrop_mod4: "horizontalCrop s b mod 4 = 0"
  by (simp add: horizontalCrop_def)

lemma verticalCrop_even: "even (verticalCrop s b)"
  by (simp add: verticalCrop_def)

section \<open>The streamer's configuration setters\<close>

lemma setCropAmount_while_running: "mRunning s \<Longrightarrow> setCropAmount w h s = s"
  by (simp add: setCropAmount_def)

lemma setCropAmount_stopped:
  "\<not> mRunning s \<Longrightarrow>
     mCropWidth (setCropAmount w h s) = w \<and> mCropHeight (setCropAmount w h s) = h"
  by (simp add: setCropAmount_def)

text \<open>
  C7. The claim: while the streamer is running, no call of \<open>setCropAmount\<close> or of
  \<open>setBin\<close> changes its field. \<open>setCropAmount\<close> is guarded (the two lemmas above);
  \<open>setBin\<close> is not: on a running streamer with \<open>mBin = False\<close>, \<open>setBin True\<close> sets
  the field.
\<close>

theorem setBin_while_running:
  "mRunning (config True 0 0 False False)
   \<and> mBin (setBin True (config True 0 0 False False)) \<noteq> mBin (config True 0 0 False False)"
  by (simp add: setBin_def config_def)

section \<open>Crop\<close>

text \<open>
  C10. With both crop percentages zero and neither binning nor compression enabled,
  \<open>processBuffer\<close> runs \<open>crop\<close>, and on a RAW10 or RAW12 frame \<open>crop\<close> returns at
  once: the frame is the one passed in, the data region has not been locked and the
  valid range has not been rewritten.
\<close>

theorem crop_zero_noop:
  assumes "pixelFormat b = PF_RAW10 \<or> pixelFormat b = PF_RAW12"
    and "mCropWidth s = 0" and "mCropHeight s = 0"
    and "\<not> mBin s" and "\<not> mEnableCompression s"
  shows "processBuffer encodeFunc s b = Inr (crop s b) \<and> crop s b = b
         \<and> lockCalls (crop s b) = lockCalls b \<and> validRange (crop s b) = validRange b"
  using assms by (auto simp add: processBuffer_def crop_def)

theorem crop_zero_noop_witness:
  "(pixelFormat (frame PF_RAW10 8 4 10 (\<lambda>i. 0)) = PF_RAW10
      \<or> pixelFormat (frame PF_RAW10 8 4 10 (\<lambda>i. 0)) = PF_RAW12)
   \<and> mCropWidth (config True 0 0 False False) = 0
   \<and> mCropHeight (config True 0 0 False False) = 0
   \<and> \<not> mBin (config True 0 0 False False)
   \<and> \<not> mEnableCompression (config True 0 0 False False)
   \<and> crop (config True 0 0 False False) (frame PF_RAW10 8 4 10 (\<lambda>i. 0))
       = frame PF_RAW10 8 4 10 (\<lambda>i. 0)
   \<and> validRange (crop (config True 0 0 False False) (frame PF_RAW10 8 4 10 (\<lambda>i. 0))) = (0, 40)"
  using crop_zero_noop [of "frame PF_RAW10 8 4 10 (\<lambda>i. 0)" "config True 0 0 False False"
      plainCodec]
  by (simp add: config_def frame_def)



section \<open>Unsupported pixel formats\<close>

lemma sameFrame_refl: "sameFrame b b"
  by (simp add: sameFrame_def)

lemma sameFrame_unlock_lock: "sameFrame b (unlock (lock b))"
  by (simp add: sameFrame_def unlock_def lock_def)

lemma crop_other: "pixelFormat b = PF_OTHER t \<Longrightarrow> crop s b = b \<or> crop s b = unlock (lock b)"
  by (simp add: crop_def Let_def lock_def)

lemma cropAndCompress_other:
  "pixelFormat b = PF_OTHER t \<Longrightarrow> 0 \<le> croppedWidth s b \<Longrightarrow>
     cropAndCompress encodeFunc s b = Inr (unlock (lock b))"
  by (simp add: cropAndCompress_def Let_def lock_def)

lemma cropAndBin_other:
  "pixelFormat b = PF_OTHER t \<Longrightarrow> 0 \<le> croppedWidth s b \<Longrightarrow>
     cropAndBin encodeFunc s b = Inr (unlock (lock b))"
  by (simp add: cropAndBin_def Let_def lock_def sdiv_nonneg_eq)

text \<open>
  C6. A frame whose pixel format is none of RAW10, RAW12, RAW16, under a configuration
  that leaves a non-negative cropped width (so that no row vector fails to be
  constructed): each of \<open>crop\<close>, \<open>cropAndCompress\<close> and \<open>cropAndBin\<close> returns, and
  the frame it leaves has the bytes, valid range, width, height, row stride, pixel
  format, compression type, binned and compressed flags and metadata it had.
  \<open>processBuffer\<close> therefore returns such a frame, and the round of \<open>doProcess\<close> that
  takes the frame from the unprocessed queue appends it to the ready queue.
\<close>

theorem unsupported_format_untouched:
  assumes "pixelFormat b = PF_OTHER t" and "0 \<le> croppedWidth s b" and "mRunning s"
  shows "sameFrame b (crop s b)
     \<and> (\<exists>b'. cropAndCompress encodeFunc s b = Inr b' \<and> sameFrame b b')
     \<and> (\<exists>b'. cropAndBin encodeFunc s b = Inr b' \<and> sameFrame b b')
     \<and> (\<exists>b'. processBuffer encodeFunc s b = Inr b' \<and> sameFrame b b'
            \<and> doProcess_round encodeFunc s
                 \<lparr>mUnprocessedBuffers = b # rest, mReadyBuffers = ready\<rparr>
               = Inr \<lparr>mUnprocessedBuffers = rest, mReadyBuffers = ready @ [b']\<rparr>)"
proof -
  have c: "sameFrame b (crop s b)"
    using crop_other [OF assms(1), of s] sameFrame_unlock_lock [of b] sameFrame_refl [of b]
    by auto
  have cc: "cropAndCompress encodeFunc s b = Inr (unlock (lock b))"
    using assms by (rule_tac cropAndCompress_other)
  have cb: "cropAndBin encodeFunc s b = Inr (unlock (lock b))"
    using assms by (rule_tac cropAndBin_other)
  have "\<exists>b'. processBuffer encodeFunc s b = Inr b' \<and> sameFrame b b'"
    using c cc cb sameFrame_unlock_lock [of b] by (simp add: processBuffer_def)
  then obtain b' where pb: "processBuffer encodeFunc s b = Inr b'" and sf: "sameFrame b b'"
    by blast
  have "doProcess_round encodeFunc s \<lparr>mUnprocessedBuffers = b # rest, mReadyBuffers = ready\<rparr>
        = Inr \<lparr>mUnprocessedBuffers = rest, mReadyBuffers = ready @ [b']\<rparr>"
    using pb assms(3) by (simp add: doProcess_round_def)
  with c cc cb pb sf sameFrame_unlock_lock [of b] show ?thesis by auto
qed

theorem unsupported_format_untouched_witness:
  "pixelFormat (frame (PF_OTHER 35) 8 4 8 (\<lambda>i. 0)) = PF_OTHER 35
   \<and> 0 \<le> croppedWidth (config True 0 0 False True) (frame (PF_OTHER 35) 8 4 8 (\<lambda>i. 0))
   \<and> mRunning (config True 0 0 False True)
   \<and> sameFrame (frame (PF_OTHER 35) 8 4 8 (\<lambda>i. 0))
        (crop (config True 0 0 False True) (frame (PF_OTHER 35) 8 4 8 (\<lambda>i. 0)))
   \<and> (\<exists>b'. processBuffer plainCodec (config True 0 0 False True)
               (frame (PF_OTHER 35) 8 4 8 (\<lambda>i. 0)) = Inr b'
            \<and> sameFrame (frame (PF_OTHER 35) 8 4 8 (\<lambda>i. 0)) b')"
  using unsupported_format_untouched [of "frame (PF_OTHER 35) 8 4 8 (\<lambda>i. 0)" 35
      "config True 0 0 False True" plainCodec "[]" "[]"]
  by (simp add: config_def frame_def croppedWidth_def horizontalCrop_zero) blast

section \<open>Binning: the frame after \<open>cropAndBin\<close>\<close>

text \<open>
  C5. On a RAW10, RAW12 or RAW16 frame whose cropped width and height are not negative,
  \<open>cropAndBin\<close> returns a frame of width \<open>floor((width - 2 * horizontalCrop) / 2)\<close> and
  height \<open>floor((height - 2 * verticalCrop) / 2)\<close>, marked binned. With compression
  enabled the frame is RAW16, BITNZPACK_2, compressed, with row stride twice the new
  width. With compression disabled a RAW10 frame stays RAW10 and a RAW12 or RAW16 frame
  comes back RAW12, the row stride is \<open>10 * width' / 8\<close> resp. \<open>12 * width' / 8\<close>, and the
  frame is uncompressed.
\<close>

theorem cropAndBin_metadata:
  assumes "pixelFormat b = PF_RAW10 \<or> pixelFormat b = PF_RAW12 \<or> pixelFormat b = PF_RAW16"
    and "0 \<le> croppedWidth s b" and "0 \<le> croppedHeight s b"
  shows "\<exists>b'. cropAndBin encodeFunc s b = Inr b'
     \<and> width b' = (width b - 2 * horizontalCrop s b) div 2
     \<and> height b' = (height b - 2 * verticalCrop s b) div 2
     \<and> isBinned b'
     \<and> (if mEnableCompression s
         then pixelFormat b' = PF_RAW16 \<and> compressionType b' = BITNZPACK_2 \<and> isCompressed b'
              \<and> rowStride b' = 2 * width b'
         else pixelFormat b' = (if pixelFormat b = PF_RAW10 then PF_RAW10 else PF_RAW12)
              \<and> rowStride b' = (if pixelFormat b = PF_RAW10 then 10 * width b' div 8
                                 else 12 * width b' div 8)
              \<and> \<not> isCompressed b' \<and> compressionType b' = UNCOMPRESSED)"
proof -
  have w: "croppedWidth s b sdiv 2 = (width b - 2 * horizontalCrop s b) div 2"
    using assms(2) by (simp add: sdiv_nonneg_eq) (simp add: croppedWidth_def mult.commute)
  have h: "croppedHeight s b sdiv 2 = (height b - 2 * verticalCrop s b) div 2"
    using assms(3) by (simp add: sdiv_nonneg_eq) (simp add: croppedHeight_def mult.commute)
  have nn: "0 \<le> (width b - 2 * horizontalCrop s b) div 2"
    using assms(2) by (simp add: croppedWidth_def mult.commute)
  have s10: "(10 * ((width b - 2 * horizontalCrop s b) div 2)) sdiv 8
             = 10 * ((width b - 2 * horizontalCrop s b) div 2) div 8"
    using nn by (simp add: sdiv_nonneg_eq)
  have s12: "(12 * ((width b - 2 * horizontalCrop s b) div 2)) sdiv 8
             = 12 * ((width b - 2 * horizontalCrop s b) div 2) div 8"
    using nn by (simp add: sdiv_nonneg_eq)
  show ?thesis
  proof (cases "mEnableCompression s")
    case True
    with assms(1) nn show ?thesis
      by (auto simp add: cropAndBin_def Let_def w h lock_def unlock_def
          setValidRange_def split: prod.split)
  next
    case False
    with assms(1) nn show ?thesis
      by (auto simp add: cropAndBin_def Let_def w h s10 s12 lock_def unlock_def
          setValidRange_def split: prod.split)
  qed
qed

theorem cropAndBin_metadata_witness:
  "(pixelFormat (frame PF_RAW10 4000 3000 5000 (\<lambda>i. 0)) = PF_RAW10
      \<or> pixelFormat (frame PF_RAW10 4000 3000 5000 (\<lambda>i. 0)) = PF_RAW12
      \<or> pixelFormat (frame PF_RAW10 4000 3000 5000 (\<lambda>i. 0)) = PF_RAW16)
   \<and> 0 \<le> croppedWidth (config True 0 0 True False) (frame PF_RAW10 4000 3000 5000 (\<lambda>i. 0))
   \<and> 0 \<le> croppedHeight (config True 0 0 True False) (frame PF_RAW10 4000 3000 5000 (\<lambda>i. 0))
   \<and> (\<exists>b'. cropAndBin plainCodec (config True 0 0 True False)
               (frame PF_RAW10 4000 3000 5000 (\<lambda>i. 0)) = Inr b'
            \<and> width b' = 2000 \<and> height b' = 1500 \<and> isBinned b' \<and> pixelFormat b' = PF_RAW10
            \<and> rowStride b' = 2500)"
proof -
  let ?b = "frame PF_RAW10 4000 3000 5000 (\<lambda>i. 0)"
  let ?s = "config True 0 0 True False"
  have pf: "pixelFormat ?b = PF_RAW10" by (simp add: frame_def)
  have hc: "horizontalCrop ?s ?b = 0" by (rule horizontalCrop_zero) (simp add: config_def)
  have vc: "verticalCrop ?s ?b = 0" by (rule verticalCrop_zero) (simp add: config_def)
  have w: "width ?b = 4000" and h: "height ?b = 3000" by (simp_all add: frame_def)
  have cw: "0 \<le> croppedWidth ?s ?b" by (simp add: croppedWidth_def hc w)
  have ch: "0 \<le> croppedHeight ?s ?b" by (simp add: croppedHeight_def vc h)
  have nc: "\<not> mEnableCompression ?s" by (simp add: config_def)
  from cropAndBin_metadata [of ?b ?s plainCodec] pf cw ch
  obtain b' where "cropAndBin plainCodec ?s ?b = Inr b'"
    and "width b' = (width ?b - 2 * horizontalCrop ?s ?b) div 2"
    and "height b' = (height ?b - 2 * verticalCrop ?s ?b) div 2"
    and "isBinned b'"
    and "if mEnableCompression ?s
         then pixelFormat b' = PF_RAW16 \<and> compressionType b' = BITNZPACK_2 \<and> isCompressed b'
              \<and> rowStride b' = 2 * width b'
         else pixelFormat b' = (if pixelFormat ?b = PF_RAW10 then PF_RAW10 else PF_RAW12)
              \<and> rowStride b' = (if pixelFormat ?b = PF_RAW10 then 10 * width b' div 8
                                 else 12 * width b' div 8)
              \<and> \<not> isCompressed b' \<and> compressionType b' = UNCOMPRESSED"
    by blast
  then have "cropAndBin plainCodec ?s ?b = Inr b' \<and> width b' = 2000 \<and> height b' = 1500
      \<and> isBinned b' \<and> pixelFormat b' = PF_RAW10 \<and> rowStride b' = 2500"
    by (simp add: hc vc w h nc pf)
  then show ?thesis using pf cw ch by blast
qed

section \<open>Bits of the packed formats\<close>

lemma bit_below_bound:
  fixes v :: "16 word"
  assumes "v < 2 ^ k" and "bit v n"
  shows "n < k"
proof -
  have "v AND mask k = v" using assms(1) by (rule less_mask_eq)
  then have "bit v n = bit (v AND mask k) n" by simp
  also have "\<dots> = (bit v n \<and> n < k)" by (auto simp add: bit_simps dest: bit_imp_le_length)
  finally show ?thesis using assms(2) by simp
qed

lemma uint_times2:
  fixes v :: "16 word"
  assumes "v < 2 ^ 14"
  shows "uint (v * 2) = 2 * uint v"
proof -
  have "uint v < 2 ^ 14" using assms by (simp add: word_less_def)
  then have "uint v * 2 mod 65536 = uint v * 2" by simp
  then show ?thesis by (simp add: uint_word_ariths)
qed

lemma uint_times4:
  fixes v :: "16 word"
  assumes "v < 2 ^ 14"
  shows "uint (v * 4) = 4 * uint v"
proof -
  have "uint v < 2 ^ 14" using assms by (simp add: word_less_def)
  then have "uint v * 4 mod 65536 = uint v * 4" by simp
  then show ?thesis by (simp add: uint_word_ariths)
qed

lemma uint_small: fixes v :: "16 word" shows "v < 2 ^ 14 \<Longrightarrow> uint v < 16384"
  by (simp add: word_less_def)


lemma div16_range: "0 \<le> S \<Longrightarrow> S < 262144 \<Longrightarrow> 0 \<le> S div 16 \<and> S div 16 < (65536::int)"
  by (simp add: pos_imp_zdiv_nonneg_iff)

lemma uint_word_of_int_small: "0 \<le> k \<Longrightarrow> k < 65536 \<Longrightarrow> uint (word_of_int k :: 16 word) = k"
  by (simp add: uint_word_of_int take_bit_eq_mod)


lemma binPixel_unfold:
  assumes "\<And>x y. rd data x y (rowStride buffer) < 2 ^ 14"
  shows "binPixel rd buffer data ix iy =
     word_of_int
      ((uint (rd data (max 0 (ix - 2)) (max 0 (iy - 2)) (rowStride buffer))
        + 2 * uint (rd data ix (max 0 (iy - 2)) (rowStride buffer))
        + uint (rd data ((ix + 2) smod width buffer) (max 0 (iy - 2)) (rowStride buffer))
        + 2 * uint (rd data (max 0 (ix - 2)) iy (rowStride buffer))
        + 4 * uint (rd data ix iy (rowStride buffer))
        + 2 * uint (rd data ((ix + 2) smod width buffer) iy (rowStride buffer))
        + uint (rd data (max 0 (ix - 2)) ((iy + 2) smod height buffer) (rowStride buffer))
        + 2 * uint (rd data ix ((iy + 2) smod height buffer) (rowStride buffer))
        + uint (rd data ((ix + 2) smod width buffer) ((iy + 2) smod height buffer)
            (rowStride buffer))) div 16)"
proof -
  have p1: "push_bit 1 w = w * 2" and p2: "push_bit 2 w = w * 4" for w :: "16 word"
    by (simp_all add: push_bit_eq_mult)
  have d: "drop_bit 4 k = k div 16" for k :: int by (simp add: drop_bit_eq_div)
  show ?thesis
    unfolding binPixel_def Let_def p1 p2 uint_times2 [OF assms] uint_times4 [OF assms] d
    by (rule refl)
qed


lemma binPixel_eq_binSpec:
  assumes "\<And>x y. rd data x y (rowStride buffer) < 2 ^ 14"
  shows "uint (binPixel rd buffer data ix iy) = binSpec rd buffer data ix iy"
proof -
  define s where "s = (\<lambda>x y. uint (rd data x y (rowStride buffer)))"
  define xl xr yt yb where "xl = max 0 (ix - 2)" and "xr = (ix + 2) smod width buffer"
    and "yt = max 0 (iy - 2)" and "yb = (iy + 2) smod height buffer"
  define S where "S = s xl yt + 2 * s ix yt + s xr yt + 2 * s xl iy + 4 * s ix iy
        + 2 * s xr iy + s xl yb + 2 * s ix yb + s xr yb"
  have b: "0 \<le> s x y \<and> s x y < 16384" for x y
    using uint_small [OF assms, of x y] by (simp add: s_def)
  have "0 \<le> S \<and> S < 262144"
    unfolding S_def
    using b [of xl yt] b [of ix yt] b [of xr yt] b [of xl iy] b [of ix iy]
      b [of xr iy] b [of xl yb] b [of ix yb] b [of xr yb]
    by linarith
  then have r: "0 \<le> S div 16" "S div 16 < 65536" using div16_range [of S] by simp_all
  have "binPixel rd buffer data ix iy = word_of_int (S div 16)"
    unfolding binPixel_unfold [of rd data buffer ix iy, OF assms] S_def s_def xl_def xr_def yt_def yb_def
    by (rule refl)
  then have "uint (binPixel rd buffer data ix iy) = S div 16"
    using uint_word_of_int_small [OF r] by simp
  moreover have "binSpec rd buffer data ix iy = S div 16"
    unfolding binSpec_def Let_def S_def s_def xl_def xr_def yt_def yb_def by simp
  ultimately show ?thesis by simp
qed


lemma RAW10_bound: "RAW10 data x y stride < 2 ^ 10"
proof -
  have m: "(0x03 :: 16 word) = mask 2" by (simp add: mask_eq_exp_minus_1)
  have "RAW10 data x y stride AND mask 10 = RAW10 data x y stride"
    unfolding RAW10_def Let_def m
    by (rule bit_word_eqI) (auto simp add: bit_simps dest: bit_imp_le_length)
  moreover have "RAW10 data x y stride AND mask 10 < 2 ^ 10"
    by (rule and_mask_less') simp
  ultimately show ?thesis by simp
qed

lemma RAW12_bound: "RAW12 data x y stride < 2 ^ 12"
proof -
  have m: "(0x0F :: 16 word) = mask 4" by (simp add: mask_eq_exp_minus_1)
  have "RAW12 data x y stride AND mask 12 = RAW12 data x y stride"
    unfolding RAW12_def Let_def m
    by (rule bit_word_eqI) (auto simp add: bit_simps dest: bit_imp_le_length)
  moreover have "RAW12 data x y stride AND mask 12 < 2 ^ 12"
    by (rule and_mask_less') simp
  ultimately show ?thesis by simp
qed

lemma RAW10_bound14: "RAW10 data x y stride < 2 ^ 14"
  using RAW10_bound [of data x y stride] by (simp add: word_less_def)

lemma RAW12_bound14: "RAW12 data x y stride < 2 ^ 14"
  using RAW12_bound [of data x y stride] by (simp add: word_less_def)

section \<open>Packing a row and reading it back\<close>

lemma raw12_join_even:
  fixes v w :: "16 word"
  assumes "v < 4096"
  shows "push_bit 4 (ucast (ucast (drop_bit 4 v) :: 8 word) :: 16 word)
           OR (ucast (ucast (v AND 0x0F) OR ucast (push_bit 4 (w AND 0x0F)) :: 8 word) AND 0x0F)
         = v"
proof -
  have hi: "n < 12" if "bit v n" for n
    using bit_below_bound [of v 12 n] assms that by simp
  have m: "(0x0F :: 16 word) = mask 4" by (simp add: mask_eq_exp_minus_1)
  show ?thesis
    unfolding m
    apply (rule bit_word_eqI)
    apply (auto simp add: bit_simps dest: hi)
    done
qed

lemma raw12_join_odd:
  fixes v w :: "16 word"
  assumes "w < 4096"
  shows "push_bit 4 (ucast (ucast (drop_bit 4 w) :: 8 word) :: 16 word)
           OR (drop_bit 4 (ucast (ucast (v AND 0x0F) OR ucast (push_bit 4 (w AND 0x0F)) :: 8 word))
                AND 0x0F)
         = w"
proof -
  have hi: "n < 12" if "bit w n" for n
    using bit_below_bound [of w 12 n] assms that by simp
  have m: "(0x0F :: 16 word) = mask 4" by (simp add: mask_eq_exp_minus_1)
  have r: "4 + (n - 4) = n" if "\<not> n < 4" for n :: nat using that by simp
  show ?thesis
    unfolding m
    apply (rule bit_word_eqI)
    apply (auto simp add: bit_simps dest: hi)
    apply (metis r)
    done
qed

lemma RAW12_even:
  "RAW12 data (2 * m) y stride =
     push_bit 4 (ucast (data (y * stride + 3 * m)))
       OR (ucast (data (y * stride + 3 * m + 2)) AND 0x0F)"
proof -
  have "(24 * m) div 8 = 3 * m" by simp
  then show ?thesis
    by (simp add: RAW12_def Let_def push_bit_eq_mult drop_bit_eq_div)
qed

lemma RAW12_odd:
  "RAW12 data (2 * m + 1) y stride =
     push_bit 4 (ucast (data (y * stride + 3 * m + 1)))
       OR (drop_bit 4 (ucast (data (y * stride + 3 * m + 2))) AND 0x0F)"
proof -
  have a: "(2 * m + 1) div 2 = m" by simp
  have b: "(24 * m) div 8 = 3 * m" by simp
  show ?thesis
    by (simp add: RAW12_def Let_def push_bit_eq_mult drop_bit_eq_div a b add.assoc)
qed

lemma packRAW12_below:
  "a < offset \<Longrightarrow> fst (packRAW12 row n i (data, offset)) a = data a"
proof (induction row n i "(data, offset)" arbitrary: data offset rule: packRAW12.induct)
  case (1 row n i data offset)
  show ?case
  proof (cases "i < n")
    case True
    then show ?thesis
      using "1.prems" "1.hyps" [OF True refl refl refl]
      by (subst packRAW12.simps) (simp add: Let_def)
  next
    case False
    then show ?thesis by (subst packRAW12.simps) simp
  qed
qed

lemma packRAW12_offset:
  "snd (packRAW12 row n i (data, offset)) = offset + 3 * max 0 (n - i)"
proof (induction row n i "(data, offset)" arbitrary: data offset rule: packRAW12.induct)
  case (1 row n i data offset)
  show ?case
  proof (cases "i < n")
    case True
    then show ?thesis
      using "1.hyps" [OF True refl refl refl]
      by (subst packRAW12.simps) (simp add: Let_def)
  next
    case False
    then show ?thesis by (subst packRAW12.simps) simp
  qed
qed

lemma packRAW12_bytes:
  "i \<le> j \<Longrightarrow> j < n \<Longrightarrow>
     fst (packRAW12 row n i (data, offset)) (offset + 3 * (j - i)) = ucast (drop_bit 4 (row j))
   \<and> fst (packRAW12 row n i (data, offset)) (offset + 3 * (j - i) + 1)
       = ucast (drop_bit 4 (row (j + n)))
   \<and> fst (packRAW12 row n i (data, offset)) (offset + 3 * (j - i) + 2)
       = ucast (row j AND 0x0F) OR ucast (push_bit 4 (row (j + n) AND 0x0F))"
proof (induction row n i "(data, offset)" arbitrary: data offset rule: packRAW12.induct)
  case (1 row n i data offset)
  from "1.prems" have lt: "i < n" by simp
  show ?case
  proof (cases "j = i")
    case True
    then show ?thesis
      using lt by (subst (1 2 3) packRAW12.simps) (simp add: Let_def packRAW12_below)
  next
    case False
    with "1.prems" have "i + 1 \<le> j" by simp
    from "1.hyps" [OF lt refl refl refl this "1.prems"(2)]
    show ?thesis
      using lt by (subst (1 2 3) packRAW12.simps) (simp add: Let_def algebra_simps)
  qed
qed

lemma packRAW12_bytes0:
  assumes "0 \<le> j" and "j < n"
  shows "fst (packRAW12 row n 0 (data, offset)) (offset + 3 * j) = ucast (drop_bit 4 (row j))"
    and "fst (packRAW12 row n 0 (data, offset)) (offset + 3 * j + 1)
           = ucast (drop_bit 4 (row (j + n)))"
    and "fst (packRAW12 row n 0 (data, offset)) (offset + 3 * j + 2)
           = ucast (row j AND 0x0F) OR ucast (push_bit 4 (row (j + n) AND 0x0F))"
  using packRAW12_bytes [of 0 j n row data offset] assms by simp_all

lemma packRAW12_roundtrip:
  assumes "\<And>i. 0 \<le> i \<Longrightarrow> i < 2 * n \<Longrightarrow> row i < 4096"
    and "0 \<le> x" and "x < 2 * n" and "offset = y * stride"
  shows "RAW12 (fst (packRAW12 row n 0 (data, offset))) x y stride
         = row (if even x then x div 2 else n + x div 2)"
proof -
  define m where "m = x div 2"
  have m: "0 \<le> m" "m < n" using assms(2,3) by (simp_all add: m_def)
  have b0: "row m < 4096" and b1: "row (m + n) < 4096" using assms(1) m by simp_all
  note bytes = packRAW12_bytes0 [OF m, of row data "y * stride"]
  show ?thesis
  proof (cases "even x")
    case True
    then have x: "x = 2 * m" by (auto simp add: m_def)
    have "RAW12 (fst (packRAW12 row n 0 (data, y * stride))) (2 * m) y stride = row m"
      unfolding RAW12_even bytes by (rule raw12_join_even [OF b0])
    then show ?thesis by (simp add: x assms(4))
  next
    case False
    then have x: "x = 2 * m + 1" by (auto simp add: m_def elim!: oddE)
    have "RAW12 (fst (packRAW12 row n 0 (data, y * stride))) (2 * m + 1) y stride = row (m + n)"
      unfolding RAW12_odd bytes by (rule raw12_join_odd [OF b1])
    then show ?thesis by (simp add: x assms(4) add.commute)
  qed
qed

text \<open>
  C1. The claim: a row of samples masked to the bit depth, packed from its
  \<open>[even || odd]\<close> halves as the uncompressed branch of \<open>cropAndBin\<close> does, reads back
  pixel by pixel. For RAW12 it does (\<open>packRAW12_roundtrip\<close>). For RAW10 it does not: the
  loop takes the four high bytes of a group from \<open>row[i]\<close>, \<open>row[i + rowSize_2]\<close>,
  \<open>row[i + 1]\<close>, \<open>row[i + rowSize_2 + 1]\<close>, but the low bit pairs from \<open>row[i]\<close>,
  \<open>row[i + 1]\<close>, \<open>row[i + 2]\<close>, \<open>row[i + 3]\<close>. With the row \<open>stepRow\<close> of width 4,
  pixel 1 reads back as 1, while its sample, the first of the odd half, is 0.
\<close>

theorem raw10_pack_read_mismatch:
  "RAW10 (fst (packRAW10 stepRow 2 0 (zeroBytes, 0))) 1 0 5 = 1
   \<and> stepRow (2 + 1 div 2) = 0
   \<and> stepRow 0 < 1024 \<and> stepRow 1 < 1024 \<and> stepRow 2 < 1024 \<and> stepRow 3 < 1024"
  by (simp add: packRAW10.simps RAW10_def Let_def stepRow_def zeroRow_def zeroBytes_def)

section \<open>Binning: the loop over one cell row\<close>

lemma binRowPair_step:
  "x < xend \<Longrightarrow>
   binRowPair rd conv buffer data y xstart xend bw x (row0, row1) =
   binRowPair rd conv buffer data y xstart xend bw (x + 4)
     (row0(conv ((x - xstart) div 4) := binPixel rd buffer data x y,
           conv ((x - xstart) div 4 + bw div 2) := binPixel rd buffer data (x + 1) y),
      row1((x - xstart) div 4 := binPixel rd buffer data x (y + 1),
           (x - xstart) div 4 + bw div 2 := binPixel rd buffer data (x + 1) (y + 1)))"
  by (subst binRowPair.simps) (simp add: Let_def drop_bit_eq_div)

lemma binRowPair_stop:
  "\<not> x < xend \<Longrightarrow> binRowPair rd conv buffer data y xstart xend bw x rows = rows"
  by (cases rows) (simp add: binRowPair.simps)

lemma binRowPair_untouched:
  assumes "xstart \<le> x" and "(x - xstart) mod 4 = 0" and "xend - xstart \<le> 4 * (bw div 2)"
    and "\<And>i. 0 \<le> i \<Longrightarrow> i < 2 * (bw div 2) \<Longrightarrow> conv i = i"
    and "i < (x - xstart) div 4 \<or> (bw div 2 \<le> i \<and> i < bw div 2 + (x - xstart) div 4)"
  shows "fst (binRowPair rd conv buffer data y xstart xend bw x (row0, row1)) i = row0 i
       \<and> snd (binRowPair rd conv buffer data y xstart xend bw x (row0, row1)) i = row1 i"
  using assms(1,2,5)
proof (induction "nat (xend - x)" arbitrary: x row0 row1 rule: less_induct)
  case less
  show ?case
  proof (cases "x < xend")
    case False
    then show ?thesis by (simp add: binRowPair_stop)
  next
    case True
    define k where "k = (x - xstart) div 4"
    define h where "h = bw div 2"
    have k0: "0 \<le> k" using less.prems(1) by (simp add: k_def)
    have x4: "x - xstart = 4 * k" using less.prems(2) by (simp add: k_def) presburger
    have kh: "k < h" using True assms(3) x4 by (simp add: h_def)
    have ck: "conv k = k" using assms(4) [of k] k0 kh by (simp add: h_def)
    have ckh: "conv (k + h) = k + h" using assms(4) [of "k + h"] k0 kh by (simp add: h_def)
    have x4': "x + 4 - xstart = 4 * (k + 1)" using x4 by simp
    have k': "(x + 4 - xstart) div 4 = k + 1" unfolding x4' by simp
    have m': "(x + 4 - xstart) mod 4 = 0" unfolding x4' by simp
    have i: "i < k \<or> (h \<le> i \<and> i < h + k)" using less.prems(3) by (simp add: k_def h_def)
    then have i': "i < (x + 4 - xstart) div 4 \<or>
        (bw div 2 \<le> i \<and> i < bw div 2 + (x + 4 - xstart) div 4)"
      unfolding k' h_def [symmetric] by auto
    have ne: "i \<noteq> k" "i \<noteq> k + h" using i k0 kh by auto
    have le: "xstart \<le> x + 4" using less.prems(1) by simp
    have dec: "nat (xend - (x + 4)) < nat (xend - x)" using True by simp
    define R0 where "R0 = row0(k := binPixel rd buffer data x y,
                               k + h := binPixel rd buffer data (x + 1) y)"
    define R1 where "R1 = row1(k := binPixel rd buffer data x (y + 1),
                               k + h := binPixel rd buffer data (x + 1) (y + 1))"
    have st: "binRowPair rd conv buffer data y xstart xend bw x (row0, row1)
        = binRowPair rd conv buffer data y xstart xend bw (x + 4) (R0, R1)"
      unfolding binRowPair_step [OF True] k_def [symmetric] h_def [symmetric] ck ckh
        R0_def R1_def by (rule refl)
    have "R0 i = row0 i" "R1 i = row1 i" using ne by (simp_all add: R0_def R1_def)
    with less.hyps [OF dec le m' i', of R0 R1] show ?thesis unfolding st by simp
  qed
qed

lemma binRowPair_values:
  assumes "xstart \<le> x" and "(x - xstart) mod 4 = 0" and "xend - xstart \<le> 4 * (bw div 2)"
    and "\<And>i. 0 \<le> i \<Longrightarrow> i < 2 * (bw div 2) \<Longrightarrow> conv i = i"
    and "x \<le> j" and "j < xend" and "(j - xstart) mod 4 = 0"
  shows "fst (binRowPair rd conv buffer data y xstart xend bw x (row0, row1))
           ((j - xstart) div 4) = binPixel rd buffer data j y
       \<and> fst (binRowPair rd conv buffer data y xstart xend bw x (row0, row1))
           ((j - xstart) div 4 + bw div 2) = binPixel rd buffer data (j + 1) y
       \<and> snd (binRowPair rd conv buffer data y xstart xend bw x (row0, row1))
           ((j - xstart) div 4) = binPixel rd buffer data j (y + 1)
       \<and> snd (binRowPair rd conv buffer data y xstart xend bw x (row0, row1))
           ((j - xstart) div 4 + bw div 2) = binPixel rd buffer data (j + 1) (y + 1)"
  using assms(1,2,5)
proof (induction "nat (xend - x)" arbitrary: x row0 row1 rule: less_induct)
  case less
  from less.prems(3) assms(6) have lt: "x < xend" by simp
  define k where "k = (x - xstart) div 4"
  define h where "h = bw div 2"
  have k0: "0 \<le> k" using less.prems(1) by (simp add: k_def)
  have x4: "x - xstart = 4 * k" using less.prems(2) by (simp add: k_def) presburger
  have kh: "k < h" using lt assms(3) x4 by (simp add: h_def)
  have ck: "conv k = k" using assms(4) [of k] k0 kh by (simp add: h_def)
  have ckh: "conv (k + h) = k + h" using assms(4) [of "k + h"] k0 kh by (simp add: h_def)
  have x4': "x + 4 - xstart = 4 * (k + 1)" using x4 by simp
  have k': "(x + 4 - xstart) div 4 = k + 1" unfolding x4' by simp
  have m': "(x + 4 - xstart) mod 4 = 0" unfolding x4' by simp
  have le: "xstart \<le> x + 4" using less.prems(1) by simp
  have dec: "nat (xend - (x + 4)) < nat (xend - x)" using lt by simp
  define R0 where "R0 = row0(k := binPixel rd buffer data x y,
                             k + h := binPixel rd buffer data (x + 1) y)"
  define R1 where "R1 = row1(k := binPixel rd buffer data x (y + 1),
                             k + h := binPixel rd buffer data (x + 1) (y + 1))"
  have st: "binRowPair rd conv buffer data y xstart xend bw x (row0, row1)
      = binRowPair rd conv buffer data y xstart xend bw (x + 4) (R0, R1)"
    unfolding binRowPair_step [OF lt] k_def [symmetric] h_def [symmetric] ck ckh
      R0_def R1_def by (rule refl)
  show ?case
  proof (cases "j = x")
    case True
    have f: "fst (binRowPair rd conv buffer data y xstart xend bw (x + 4) (R0, R1)) i = R0 i
           \<and> snd (binRowPair rd conv buffer data y xstart xend bw (x + 4) (R0, R1)) i = R1 i"
      if "i = k \<or> i = k + h" for i
    proof (rule binRowPair_untouched [OF le m' assms(3)])
      show "conv i = i" if "0 \<le> i" "i < 2 * (bw div 2)" for i using that by (rule assms(4))
      show "i < (x + 4 - xstart) div 4 \<or>
        (bw div 2 \<le> i \<and> i < bw div 2 + (x + 4 - xstart) div 4)"
        unfolding k' h_def [symmetric] using that k0 by auto
    qed
    have ne: "k \<noteq> k + h" using kh k0 by simp
    have v: "R0 k = binPixel rd buffer data x y" "R0 (k + h) = binPixel rd buffer data (x + 1) y"
      "R1 k = binPixel rd buffer data x (y + 1)"
      "R1 (k + h) = binPixel rd buffer data (x + 1) (y + 1)"
      using ne by (simp_all add: R0_def R1_def)
    show ?thesis
      unfolding True k_def [symmetric] h_def [symmetric] st
      using f [of k] f [of "k + h"] v by simp
  next
    case False
    define q where "q = (j - xstart) div 4"
    have q: "j - xstart = 4 * q" using assms(7) by (simp add: q_def) presburger
    have "x < j" using False less.prems(3) by simp
    then have "k < q" using x4 q by simp
    then have xj: "x + 4 \<le> j" using x4 q by simp
    show ?thesis
      unfolding st by (rule less.hyps [OF dec le m' xj])
  qed
qed

lemma cellMatchesSpec_intro:
  assumes "\<And>x y. rd data x y (rowStride buffer) < 2 ^ 14"
    and "xend - xstart \<le> 4 * (bw div 2)"
    and "\<And>i. 0 \<le> i \<Longrightarrow> i < 2 * (bw div 2) \<Longrightarrow> conv i = i"
    and "xstart \<le> j" and "j < xend" and "(j - xstart) mod 4 = 0"
  shows "cellMatchesSpec rd conv buffer data y xstart xend bw rows j"
proof -
  obtain r0 r1 where rows: "rows = (r0, r1)" by (cases rows)
  have v: "fst (binRowPair rd conv buffer data y xstart xend bw xstart (r0, r1))
           ((j - xstart) div 4) = binPixel rd buffer data j y
       \<and> fst (binRowPair rd conv buffer data y xstart xend bw xstart (r0, r1))
           ((j - xstart) div 4 + bw div 2) = binPixel rd buffer data (j + 1) y
       \<and> snd (binRowPair rd conv buffer data y xstart xend bw xstart (r0, r1))
           ((j - xstart) div 4) = binPixel rd buffer data j (y + 1)
       \<and> snd (binRowPair rd conv buffer data y xstart xend bw xstart (r0, r1))
           ((j - xstart) div 4 + bw div 2) = binPixel rd buffer data (j + 1) (y + 1)"
  proof (rule binRowPair_values [OF _ _ assms(2) _ assms(4,5,6)])
    show "xstart \<le> xstart" by simp
    show "(xstart - xstart) mod 4 = 0" by simp
    show "conv i = i" if "0 \<le> i" "i < 2 * (bw div 2)" for i using that by (rule assms(3))
  qed
  have s: "uint (binPixel rd buffer data a b) = binSpec rd buffer data a b" for a b
    by (rule binPixel_eq_binSpec) (rule assms(1))
  show ?thesis
    unfolding cellMatchesSpec_def rows Let_def
    using v s by (simp add: case_prod_beta)
qed

text \<open>
  The kernel on the bytes it is given. In the loop over \<open>x\<close> of a cell row whose width
  is a multiple of 4 (so that the two halves of a row do not overlap), every sample
  written for the cell at column \<open>x\<close> is the weighted sum of \<open>binSpec\<close> over those
  bytes: for RAW10 (rows of at most 65536 samples, the range of the \<open>uint16_t\<close> row
  index) and for RAW12 always, and for RAW16 when every sample is below \<open>2 ^ 14\<close>,
  where neither the doubled nor the quadrupled sample leaves 16 bits. The bytes are
  those of the buffer when the cell row is reached, not those of the frame passed in.
\<close>

theorem binned_samples_weighted_sum:
  assumes "xend - xstart \<le> 4 * (bw div 2)"
    and "xstart \<le> x" and "x < xend" and "(x - xstart) mod 4 = 0"
  shows "(bw \<le> 65536 \<longrightarrow> cellMatchesSpec RAW10 to_uint16 buffer data y xstart xend bw rows x)
     \<and> cellMatchesSpec RAW12 (\<lambda>v. v) buffer data y xstart xend bw rows x
     \<and> ((\<forall>x y. RAW16 data x y (rowStride buffer) < 2 ^ 14) \<longrightarrow>
          cellMatchesSpec RAW16 (\<lambda>v. v) buffer data y xstart xend bw rows x)"
proof (intro conjI impI)
  assume bw: "bw \<le> 65536"
  show "cellMatchesSpec RAW10 to_uint16 buffer data y xstart xend bw rows x"
  proof (rule cellMatchesSpec_intro [OF _ assms(1) _ assms(2,3,4)])
    show "RAW10 data x y (rowStride buffer) < 2 ^ 14" for x y by (rule RAW10_bound14)
    show "to_uint16 i = i" if "0 \<le> i" "i < 2 * (bw div 2)" for i
      using that bw by (simp add: to_uint16_def)
  qed
next
  show "cellMatchesSpec RAW12 (\<lambda>v. v) buffer data y xstart xend bw rows x"
  proof (rule cellMatchesSpec_intro [OF _ assms(1) _ assms(2,3,4)])
    show "RAW12 data x y (rowStride buffer) < 2 ^ 14" for x y by (rule RAW12_bound14)
  qed simp
next
  assume b: "\<forall>x y. RAW16 data x y (rowStride buffer) < 2 ^ 14"
  show "cellMatchesSpec RAW16 (\<lambda>v. v) buffer data y xstart xend bw rows x"
  proof (rule cellMatchesSpec_intro [OF _ assms(1) _ assms(2,3,4)])
    show "RAW16 data x y (rowStride buffer) < 2 ^ 14" for x y using b by simp
  qed simp
qed

theorem binned_samples_weighted_sum_witness:
  "(8::int) - 0 \<le> 4 * (4 div 2) \<and> (0::int) \<le> 4 \<and> (4::int) < 8 \<and> ((4::int) - 0) mod 4 = 0
   \<and> (4::int) \<le> 65536
   \<and> (\<forall>x y. RAW16 zeroBytes x y (rowStride (frame PF_RAW16 8 4 16 zeroBytes)) < 2 ^ 14)
   \<and> cellMatchesSpec RAW10 to_uint16 (frame PF_RAW16 8 4 16 zeroBytes) zeroBytes 0 0 8 4
         (zeroRow, zeroRow) 4
   \<and> cellMatchesSpec RAW12 (\<lambda>v. v) (frame PF_RAW16 8 4 16 zeroBytes) zeroBytes 0 0 8 4
         (zeroRow, zeroRow) 4
   \<and> cellMatchesSpec RAW16 (\<lambda>v. v) (frame PF_RAW16 8 4 16 zeroBytes) zeroBytes 0 0 8 4
         (zeroRow, zeroRow) 4"
proof -
  have r: "\<forall>x y. RAW16 zeroBytes x y (rowStride (frame PF_RAW16 8 4 16 zeroBytes)) < 2 ^ 14"
    by (simp add: RAW16_def zeroBytes_def)
  show ?thesis
    using r binned_samples_weighted_sum [where xend = 8 and xstart = 0 and bw = 4 and x = 4
        and buffer = "frame PF_RAW16 8 4 16 zeroBytes" and data = zeroBytes and y = 0
        and rows = "(zeroRow, zeroRow)"]
    by simp
qed

lemma RAW16_brightFrame: "RAW16 (bdata brightFrame) x y (rowStride brightFrame) = 0x4000"
proof -
  have e: "even (y * 16 + x * 2)" by simp
  have o: "odd (y * 16 + x * 2 + 1)" by simp
  show ?thesis
    unfolding RAW16_def Let_def brightFrame_def frame_def
    using e o by simp
qed

lemma binPixel_brightFrame: "binPixel RAW16 brightFrame (bdata brightFrame) x y = 12288"
  unfolding binPixel_def Let_def RAW16_brightFrame by simp

lemma binSpec_brightFrame: "binSpec RAW16 brightFrame (bdata brightFrame) x y = 16384"
  unfolding binSpec_def Let_def RAW16_brightFrame by simp

text \<open>
  For RAW16 samples of \<open>2 ^ 14\<close> and above the kernel leaves the weighted sum: in
  \<open>brightFrame\<close> every sample is \<open>0x4000\<close>, the weighted sum divided by 16 is
  \<open>0x4000 = 16384\<close>, and the sample the loop writes for the cell at column 4 of the
  first cell row is 12288: the centre term \<open>0x4000 << 2\<close> is stored in a \<open>uint16_t\<close>
  and becomes 0.
\<close>

theorem binned_sample_RAW16_overflow:
  "uint (fst (binRowPair RAW16 (\<lambda>v. v) brightFrame (bdata brightFrame) 0 0 8 4 0
            (zeroRow, zeroRow)) 1) = 12288
   \<and> binSpec RAW16 brightFrame (bdata brightFrame) 4 0 = 16384
   \<and> \<not> cellMatchesSpec RAW16 (\<lambda>v. v) brightFrame (bdata brightFrame) 0 0 8 4
         (zeroRow, zeroRow) 4"
proof -
  have v: "fst (binRowPair RAW16 (\<lambda>v. v) brightFrame (bdata brightFrame) 0 0 8 4 0
            (zeroRow, zeroRow)) ((4 - 0) div 4) = binPixel RAW16 brightFrame (bdata brightFrame) 4 0"
    using binRowPair_values [of 0 0 8 4 "\<lambda>v. v" 4 RAW16 brightFrame "bdata brightFrame" 0
        zeroRow zeroRow]
    by simp
  then have a: "uint (fst (binRowPair RAW16 (\<lambda>v. v) brightFrame (bdata brightFrame) 0 0 8 4 0
            (zeroRow, zeroRow)) 1) = 12288"
    by (simp add: binPixel_brightFrame)
  then show ?thesis
    by (simp add: binSpec_brightFrame cellMatchesSpec_def case_prod_beta Let_def)
qed

section \<open>Crop: geometry and Bayer phase\<close>

lemmas halfPercent_eval =
  halfPercent_def dbl_mult_def dbl_div_def dbl_of_int_def dbl_half_def lround_def
  round_ratio_def round_half_even_div_def bitlength.simps Let_def

lemma moveRows_step:
  "y < yend \<Longrightarrow>
   moveRows stride cs xs ystart yend y data =
   moveRows stride cs xs ystart yend (y + 1)
     (memmove data (cs * (y - ystart)) (stride * y + xs) cs)"
  by (subst moveRows.simps) (simp add: Let_def)

lemma moveRows_stop: "\<not> y < yend \<Longrightarrow> moveRows stride cs xs ystart yend y data = data"
  by (subst moveRows.simps) simp

lemma moveRows_below:
  assumes "0 \<le> cs" and "ystart \<le> y" and "i < cs * (y - ystart)"
  shows "moveRows stride cs xs ystart yend y data i = data i"
  using assms(2,3)
proof (induction "nat (yend - y)" arbitrary: y data rule: less_induct)
  case less
  show ?case
  proof (cases "y < yend")
    case False
    then show ?thesis by (simp add: moveRows_stop)
  next
    case True
    have dec: "nat (yend - (y + 1)) < nat (yend - y)" using True by simp
    have le: "ystart \<le> y + 1" using less.prems(1) by simp
    have "cs * (y - ystart) \<le> cs * (y + 1 - ystart)"
      using assms(1) by (simp add: mult_left_mono)
    then have i': "i < cs * (y + 1 - ystart)" using less.prems(2) by simp
    show ?thesis
      unfolding moveRows_step [OF True] less.hyps [OF dec le i']
      using less.prems(2) by (simp add: memmove_def)
  qed
qed

lemma moveRows_first_row:
  assumes "ystart < yend" and "0 \<le> i" and "i < cs"
  shows "moveRows stride cs xs ystart yend ystart data i = data (stride * ystart + xs + i)"
proof -
  have cs: "0 \<le> cs" using assms(2,3) by simp
  have "moveRows stride cs xs ystart yend (ystart + 1)
          (memmove data (cs * (ystart - ystart)) (stride * ystart + xs) cs) i
        = memmove data (cs * (ystart - ystart)) (stride * ystart + xs) cs i"
    by (rule moveRows_below [OF cs]) (use assms(3) in simp_all)
  then show ?thesis
    unfolding moveRows_step [OF assms(1)] using assms(2,3) by (simp add: memmove_def)
qed

lemma RAW10_group_start:
  "RAW10 data (4 * m) y stride =
     push_bit 2 (ucast (data (y * stride + 5 * m)))
       OR (ucast (data (y * stride + 5 * m + 4)) AND 0x03)"
proof -
  have "(40 * m) div 8 = 5 * m" by simp
  then show ?thesis
    by (simp add: RAW10_def Let_def push_bit_eq_mult drop_bit_eq_div)
qed

lemma sdiv_exact: "(k * m) sdiv k = m" if "0 < k" for k m :: int
  using that
  by (auto simp add: signed_divide_int_def sgn_mult abs_mult sgn_if zero_less_mult_iff)


lemma crop_RAW10_fields:
  assumes "pixelFormat b = PF_RAW10" and "\<not> (mCropWidth s = 0 \<and> mCropHeight s = 0)"
  shows "width (crop s b) = croppedWidth s b"
    and "height (crop s b) = croppedHeight s b"
    and "rowStride (crop s b) = (10 * croppedWidth s b) sdiv 8"
    and "bdata (crop s b) =
           moveRows (rowStride b) ((10 * croppedWidth s b) sdiv 8)
             ((10 * horizontalCrop s b) sdiv 8) (verticalCrop s b)
             (height b - verticalCrop s b) (verticalCrop s b) (bdata b)"
  using assms
  by (auto simp add: crop_def Let_def lock_def unlock_def setValidRange_def)

lemma crop_RAW12_fields:
  assumes "pixelFormat b = PF_RAW12" and "\<not> (mCropWidth s = 0 \<and> mCropHeight s = 0)"
  shows "width (crop s b) = croppedWidth s b"
    and "height (crop s b) = croppedHeight s b"
    and "rowStride (crop s b) = (12 * croppedWidth s b) sdiv 8"
    and "bdata (crop s b) =
           moveRows (rowStride b) ((12 * croppedWidth s b) sdiv 8)
             ((10 * horizontalCrop s b) sdiv 8) (verticalCrop s b)
             (height b - verticalCrop s b) (verticalCrop s b) (bdata b)"
  using assms
  by (auto simp add: crop_def Let_def lock_def unlock_def setValidRange_def)

lemma crop_noop_fields:
  assumes "pixelFormat b \<noteq> PF_RAW16" and "mCropWidth s = 0 \<and> mCropHeight s = 0"
  shows "crop s b = b" and "horizontalCrop s b = 0" and "verticalCrop s b = 0"
  using assms by (simp_all add: crop_def horizontalCrop_zero verticalCrop_zero)

lemma crop_RAW10_first_pixel:
  assumes "pixelFormat b = PF_RAW10" and "4 \<le> croppedWidth s b" and "1 \<le> croppedHeight s b"
  shows "RAW10 (bdata (crop s b)) 0 0 (rowStride (crop s b))
         = RAW10 (bdata b) (horizontalCrop s b) (verticalCrop s b) (rowStride b)"
proof (cases "mCropWidth s = 0 \<and> mCropHeight s = 0")
  case True
  with assms(1) show ?thesis by (simp add: crop_noop_fields)
next
  case False
  define m where "m = halfPercent (mCropWidth s) (width b) sdiv 4"
  have hc: "horizontalCrop s b = 4 * m" by (simp add: horizontalCrop_def m_def)
  have xs: "(10 * horizontalCrop s b) sdiv 8 = 5 * m"
    using sdiv_exact [of 8 "5 * m"] by (simp add: hc)
  define cs where "cs = (10 * croppedWidth s b) sdiv 8"
  have "cs = (10 * croppedWidth s b) div 8"
    using assms(2) by (simp add: cs_def sdiv_nonneg_eq)
  then have cs5: "5 \<le> cs" using assms(2) by simp
  have rows: "verticalCrop s b < height b - verticalCrop s b"
    using assms(3) by (simp add: croppedHeight_def)
  have d: "bdata (crop s b) i = bdata b (rowStride b * verticalCrop s b + 5 * m + i)"
    if "0 \<le> i" "i < cs" for i
    unfolding crop_RAW10_fields(4) [OF assms(1) False] xs cs_def [symmetric]
    by (rule moveRows_first_row [OF rows that])
  have "RAW10 (bdata (crop s b)) (4 * 0) 0 (rowStride (crop s b))
        = RAW10 (bdata b) (4 * m) (verticalCrop s b) (rowStride b)"
    unfolding RAW10_group_start using d [of 0] d [of 4] cs5
    by (simp add: mult.commute)
  then show ?thesis by (simp add: hc)
qed


text \<open>
  C2, as the code has it. On a RAW10 or RAW12 frame whose cropped width is at least 4 and
  whose cropped height is at least 1, \<open>crop\<close> leaves
  \<open>width - 2 * horizontalCrop\<close> columns and \<open>height - 2 * verticalCrop\<close> rows, where
  \<open>horizontalCrop\<close> is \<open>lround(0.5 * (cropWidth / 100.0 * width))\<close> rounded down to a
  multiple of 4 and \<open>verticalCrop\<close> is \<open>lround(0.5 * (cropHeight / 100.0 * height))\<close>
  rounded down to a multiple of 2. The pixel at \<open>(horizontalCrop, verticalCrop)\<close> has the
  Bayer colour of \<open>(0, 0)\<close>, and for RAW10 the row move makes it pixel \<open>(0, 0)\<close> of the
  cropped frame.
\<close>

theorem crop_geometry_and_phase:
  assumes "pixelFormat b = PF_RAW10 \<or> pixelFormat b = PF_RAW12"
    and "4 \<le> croppedWidth s b" and "1 \<le> croppedHeight s b"
  shows "width (crop s b) = width b - 2 * horizontalCrop s b
     \<and> height (crop s b) = height b - 2 * verticalCrop s b
     \<and> horizontalCrop s b = 4 * (halfPercent (mCropWidth s) (width b) sdiv 4)
     \<and> verticalCrop s b = 2 * (halfPercent (mCropHeight s) (height b) sdiv 2)
     \<and> horizontalCrop s b mod 4 = 0 \<and> verticalCrop s b mod 2 = 0
     \<and> bayerColor (horizontalCrop s b) (verticalCrop s b) = bayerColor 0 0
     \<and> (pixelFormat b = PF_RAW10 \<longrightarrow>
          RAW10 (bdata (crop s b)) 0 0 (rowStride (crop s b))
          = RAW10 (bdata b) (horizontalCrop s b) (verticalCrop s b) (rowStride b))"
proof -
  have wh: "width (crop s b) = width b - 2 * horizontalCrop s b
      \<and> height (crop s b) = height b - 2 * verticalCrop s b"
  proof (cases "mCropWidth s = 0 \<and> mCropHeight s = 0")
    case True
    with assms(1) show ?thesis by (auto simp add: crop_noop_fields)
  next
    case False
    with assms(1) show ?thesis
      by (auto simp add: crop_RAW10_fields crop_RAW12_fields croppedWidth_def croppedHeight_def)
  qed
  have hc: "horizontalCrop s b mod 4 = 0" by (rule horizontalCrop_mod4)
  have vc: "verticalCrop s b mod 2 = 0" using verticalCrop_even [of s b] by presburger
  have "horizontalCrop s b mod 2 = 0" using hc by presburger
  then have bc: "bayerColor (horizontalCrop s b) (verticalCrop s b) = bayerColor 0 0"
    using vc by (simp add: bayerColor_def)
  show ?thesis
    using wh hc vc bc crop_RAW10_first_pixel [OF _ assms(2,3)]
    by (simp add: horizontalCrop_def verticalCrop_def)
qed

lemma halfPercent_50_16: "halfPercent 50 16 = 4"
  by (simp add: halfPercent_eval)

lemma halfPercent_25_28: "halfPercent 25 28 = 4"
  by (simp add: halfPercent_eval)

theorem crop_geometry_and_phase_witness:
  "(pixelFormat (frame PF_RAW10 16 4 20 zeroBytes) = PF_RAW10
      \<or> pixelFormat (frame PF_RAW10 16 4 20 zeroBytes) = PF_RAW12)
   \<and> 4 \<le> croppedWidth (config False 50 0 False False) (frame PF_RAW10 16 4 20 zeroBytes)
   \<and> 1 \<le> croppedHeight (config False 50 0 False False) (frame PF_RAW10 16 4 20 zeroBytes)
   \<and> width (crop (config False 50 0 False False) (frame PF_RAW10 16 4 20 zeroBytes)) = 8
   \<and> RAW10 (bdata (crop (config False 50 0 False False) (frame PF_RAW10 16 4 20 zeroBytes))) 0 0
        (rowStride (crop (config False 50 0 False False) (frame PF_RAW10 16 4 20 zeroBytes)))
      = RAW10 zeroBytes 4 0 20"
proof -
  let ?b = "frame PF_RAW10 16 4 20 zeroBytes"
  let ?s = "config False 50 0 False False"
  have pf: "pixelFormat ?b = PF_RAW10" by (simp add: frame_def)
  have hc: "horizontalCrop ?s ?b = 4"
    by (simp add: horizontalCrop_def config_def frame_def halfPercent_50_16 signed_divide_int_def)
  have vc: "verticalCrop ?s ?b = 0" by (rule verticalCrop_zero) (simp add: config_def)
  have cw: "croppedWidth ?s ?b = 8" by (simp add: croppedWidth_def hc) (simp add: frame_def)
  have ch: "croppedHeight ?s ?b = 4" by (simp add: croppedHeight_def vc) (simp add: frame_def)
  have fields: "width ?b = 16" "bdata ?b = zeroBytes" "rowStride ?b = 20"
    by (simp_all add: frame_def)
  show ?thesis
    using crop_geometry_and_phase [of ?b ?s] pf
    by (simp add: cw ch hc vc fields)
qed

text \<open>
  C2, as stated, gives the new width as
  \<open>width - 2 * floor(cropWidth% * width / 2 / 4) * 4\<close>. At width 28 and 25 percent the
  half crop is 3.5 pixels: the formula floors \<open>3.5 / 4\<close> to 0 and keeps 28 columns;
  the code rounds 3.5 to 4 first, crops 4 columns on each side and keeps 20.
\<close>

theorem crop_width_formula_mismatch:
  "even (width (frame PF_RAW10 28 2 35 zeroBytes))
   \<and> even (height (frame PF_RAW10 28 2 35 zeroBytes))
   \<and> width (crop (config False 25 0 False False) (frame PF_RAW10 28 2 35 zeroBytes)) = 20
   \<and> width (frame PF_RAW10 28 2 35 zeroBytes)
       - 2 * ((mCropWidth (config False 25 0 False False)
                 * width (frame PF_RAW10 28 2 35 zeroBytes)) div (100 * 2 * 4)) * 4 = 28"
proof -
  let ?b = "frame PF_RAW10 28 2 35 zeroBytes"
  let ?s = "config False 25 0 False False"
  have hc: "horizontalCrop ?s ?b = 4"
    by (simp add: horizontalCrop_def config_def frame_def halfPercent_25_28 signed_divide_int_def)
  have "width (crop ?s ?b) = croppedWidth ?s ?b"
    by (rule crop_RAW10_fields) (simp_all add: frame_def config_def)
  then have "width (crop ?s ?b) = 20" by (simp add: croppedWidth_def hc) (simp add: frame_def)
  then show ?thesis by (simp add: frame_def config_def)
qed

text \<open>
  The RAW12 branch of \<open>crop\<close> computes the byte offset of the first kept column as
  \<open>10 * horizontalCrop / 8\<close>, the RAW10 figure, where RAW12 needs
  \<open>12 * horizontalCrop / 8\<close>. With a per-side crop of 4 pixels the rows are moved from
  byte 5 instead of byte 6, and pixel \<open>(0, 0)\<close> of the cropped frame is not the original
  pixel \<open>(4, 0)\<close>.
\<close>

lemma crop_RAW12_first_pixel_mismatch:
  "horizontalCrop (config False 50 0 False False) markedFrame12 = 4
   \<and> verticalCrop (config False 50 0 False False) markedFrame12 = 0
   \<and> RAW12 (bdata markedFrame12) 4 0 (rowStride markedFrame12) = 16
   \<and> RAW12 (bdata (crop (config False 50 0 False False) markedFrame12)) 0 0
        (rowStride (crop (config False 50 0 False False) markedFrame12)) = 0"
proof -
  let ?b = markedFrame12
  let ?s = "config False 50 0 False False"
  have pf: "pixelFormat ?b = PF_RAW12" by (simp add: markedFrame12_def frame_def)
  have nz: "\<not> (mCropWidth ?s = 0 \<and> mCropHeight ?s = 0)" by (simp add: config_def)
  have hc: "horizontalCrop ?s ?b = 4"
    by (simp add: horizontalCrop_def config_def markedFrame12_def frame_def halfPercent_50_16
        signed_divide_int_def)
  have vc: "verticalCrop ?s ?b = 0" by (rule verticalCrop_zero) (simp add: config_def)
  have cw: "croppedWidth ?s ?b = 8"
    by (simp add: croppedWidth_def hc) (simp add: markedFrame12_def frame_def)
  have f: "height ?b = 1" "rowStride ?b = 24" "bdata ?b = zeroBytes(6 := 1)"
    by (simp_all add: markedFrame12_def frame_def)
  have orig: "RAW12 (bdata ?b) 4 0 (rowStride ?b) = 16"
    using RAW12_even [of "bdata ?b" 2 0 "rowStride ?b"] by (simp add: f zeroBytes_def)
  have d: "bdata (crop ?s ?b) = memmove (zeroBytes(6 := 1)) 0 5 12"
    unfolding crop_RAW12_fields(4) [OF pf nz] hc vc cw f
    by (simp add: moveRows_step moveRows_stop signed_divide_int_def)
  have "RAW12 (bdata (crop ?s ?b)) (2 * 0) 0 (rowStride (crop ?s ?b)) = 0"
    unfolding RAW12_even d by (simp add: memmove_def zeroBytes_def)
  then show ?thesis using hc vc orig by simp
qed

text \<open>
  Scenario S1 of the specification: RAW10, 4000 by 3000, 10 percent crop both ways, no
  binning, no compression.
\<close>

lemma crop_scenario_S1:
  "width (crop (config True 10 10 False False) (frame PF_RAW10 4000 3000 5000 zeroBytes)) = 3600
   \<and> height (crop (config True 10 10 False False) (frame PF_RAW10 4000 3000 5000 zeroBytes)) = 2700
   \<and> rowStride (crop (config True 10 10 False False) (frame PF_RAW10 4000 3000 5000 zeroBytes))
       = 4500"
proof -
  let ?b = "frame PF_RAW10 4000 3000 5000 zeroBytes"
  let ?s = "config True 10 10 False False"
  have a: "halfPercent 10 4000 = 200" by (simp add: halfPercent_eval)
  have b: "halfPercent 10 3000 = 150" by (simp add: halfPercent_eval)
  have hc: "horizontalCrop ?s ?b = 200"
    by (simp add: horizontalCrop_def config_def frame_def a signed_divide_int_def)
  have vc: "verticalCrop ?s ?b = 150"
    by (simp add: verticalCrop_def config_def frame_def b signed_divide_int_def)
  have cw: "croppedWidth ?s ?b = 3600" by (simp add: croppedWidth_def hc) (simp add: frame_def)
  have ch: "croppedHeight ?s ?b = 2700" by (simp add: croppedHeight_def vc) (simp add: frame_def)
  have pf: "pixelFormat ?b = PF_RAW10" by (simp add: frame_def)
  have nz: "\<not> (mCropWidth ?s = 0 \<and> mCropHeight ?s = 0)" by (simp add: config_def)
  show ?thesis
    unfolding crop_RAW10_fields(1,2,3) [OF pf nz] cw ch
    by (simp add: signed_divide_int_def)
qed

section \<open>Crop and compress\<close>



















section \<open>Binning a RAW10 frame end to end\<close>

lemma smod_nonneg_eq: "0 \<le> a \<Longrightarrow> 0 < b \<Longrightarrow> (a::int) smod b = a mod b"
  by (cases "a = 0") (simp_all add: signed_modulo_int_def sgn_if)

lemma RAW10_spot:
  "0 \<le> x \<Longrightarrow> x < 8 \<Longrightarrow> 0 \<le> y \<Longrightarrow> y < 4 \<Longrightarrow>
   RAW10 (zeroBytes(5 := 1)) x y 10 = (if x = 4 \<and> y = 0 then 4 else 0)"
proof -
  assume a: "0 \<le> x" "x < 8" "0 \<le> y" "y < 4"
  then have "x \<in> {0,1,2,3,4,5,6,7}" "y \<in> {0,1,2,3}" by auto
  then show ?thesis
    by (auto simp add: RAW10_def Let_def zeroBytes_def drop_bit_eq_div push_bit_eq_mult)
qed


lemma spot_fields:
  "width spotFrame = 8" "height spotFrame = 4" "rowStride spotFrame = 10"
  "bdata spotFrame = zeroBytes(5 := 1)" "pixelFormat spotFrame = PF_RAW10"
  by (simp_all add: spotFrame_def frame_def)

lemma lock_fields:
  "bdata (lock b) = bdata b" "width (lock b) = width b" "height (lock b) = height b"
  "rowStride (lock b) = rowStride b" "pixelFormat (lock b) = pixelFormat b"
  by (simp_all add: lock_def)

lemma binPixel_spot_1_0: "binPixel RAW10 (lock spotFrame) (zeroBytes(5 := 1)) 1 0 = 0"
  unfolding binPixel_unfold [of RAW10 "zeroBytes(5 := 1)" "lock spotFrame" 1 0, OF RAW10_bound14]
  by (simp add: lock_def spot_fields smod_nonneg_eq RAW10_spot)

lemma binPixel_spot_4_0: "binPixel RAW10 (lock spotFrame) (zeroBytes(5 := 1)) 4 0 = 1"
  unfolding binPixel_unfold [of RAW10 "zeroBytes(5 := 1)" "lock spotFrame" 4 0, OF RAW10_bound14]
  by (simp add: lock_def spot_fields smod_nonneg_eq RAW10_spot)

lemma binPixel_spot_0_0: "binPixel RAW10 (lock spotFrame) (zeroBytes(5 := 1)) 0 0 = 0"
  unfolding binPixel_unfold [of RAW10 "zeroBytes(5 := 1)" "lock spotFrame" 0 0, OF RAW10_bound14]
  by (simp add: lock_def spot_fields smod_nonneg_eq RAW10_spot)

lemma binPixel_spot_5_0: "binPixel RAW10 (lock spotFrame) (zeroBytes(5 := 1)) 5 0 = 0"
  unfolding binPixel_unfold [of RAW10 "zeroBytes(5 := 1)" "lock spotFrame" 5 0, OF RAW10_bound14]
  by (simp add: lock_def spot_fields smod_nonneg_eq RAW10_spot)


lemma packRAW10_step:
  "i < n \<Longrightarrow>
   packRAW10 row n i (data, offset) =
   packRAW10 row n (i + 2)
     (data(offset := ucast (drop_bit 2 (row i)),
           offset + 1 := ucast (drop_bit 2 (row (i + n))),
           offset + 2 := ucast (drop_bit 2 (row (i + 1))),
           offset + 3 := ucast (drop_bit 2 (row (i + n + 1))),
           offset + 4 := ucast (row i AND 0x03)
                      OR ucast (push_bit 2 (row (i + 1) AND 0x03))
                      OR ucast (push_bit 4 (row (i + 2) AND 0x03))
                      OR ucast (push_bit 6 (row (i + 3) AND 0x03))),
      offset + 5)"
  by (subst packRAW10.simps) (simp add: Let_def)

lemma packRAW10_stop: "\<not> i < n \<Longrightarrow> packRAW10 row n i st = st"
  by (cases st) (simp add: packRAW10.simps)

lemma packRAW10_below:
  "a < offset \<Longrightarrow> fst (packRAW10 row n i (data, offset)) a = data a"
proof (induction "nat (n - i)" arbitrary: i data offset rule: less_induct)
  case less
  show ?case
  proof (cases "i < n")
    case False
    then show ?thesis by (simp add: packRAW10_stop)
  next
    case True
    have dec: "nat (n - (i + 2)) < nat (n - i)" using True by simp
    have a: "a < offset + 5" using less.prems by simp
    show ?thesis
      unfolding packRAW10_step [OF True] less.hyps [OF dec a]
      using less.prems by simp
  qed
qed

lemma binLoop_step:
  "y < yend \<Longrightarrow> \<not> doCompress \<Longrightarrow>
   binLoop rd conv pack encodeFunc buffer yend xstart xend bw doCompress y
     (data, row0, row1, offset) =
   binLoop rd conv pack encodeFunc buffer yend xstart xend bw doCompress (y + 4)
     (fst (pack (snd (binRowPair rd conv buffer data y xstart xend bw xstart (row0, row1)))
             (bw div 2) 0
             (pack (fst (binRowPair rd conv buffer data y xstart xend bw xstart (row0, row1)))
                (bw div 2) 0 (data, offset))),
      fst (binRowPair rd conv buffer data y xstart xend bw xstart (row0, row1)),
      snd (binRowPair rd conv buffer data y xstart xend bw xstart (row0, row1)),
      snd (pack (snd (binRowPair rd conv buffer data y xstart xend bw xstart (row0, row1)))
             (bw div 2) 0
             (pack (fst (binRowPair rd conv buffer data y xstart xend bw xstart (row0, row1)))
                (bw div 2) 0 (data, offset))))"
  by (subst binLoop.simps) (simp add: Let_def case_prod_beta)

lemma binLoop_stop:
  "\<not> y < yend \<Longrightarrow>
   binLoop rd conv pack encodeFunc buffer yend xstart xend bw doCompress y
     (data, row0, row1, offset) = (data, offset)"
  by (subst binLoop.simps) simp

text \<open>
  The row of \<open>raw10_pack_read_mismatch\<close> arises from a frame: \<open>spotFrame\<close>, binned
  without crop and without compression, yields a RAW10 frame of width 4 whose pixel
  \<open>(1, 0)\<close> reads back as 1, while the binned sample of that pixel, the weighted sum
  around source pixel \<open>(1, 0)\<close>, is 0.
\<close>

lemma cropAndBin_RAW10_readback_mismatch:
  "\<not> isl (cropAndBin plainCodec (config True 0 0 True False) spotFrame)
   \<and> pixelFormat (projr (cropAndBin plainCodec (config True 0 0 True False) spotFrame)) = PF_RAW10
   \<and> width (projr (cropAndBin plainCodec (config True 0 0 True False) spotFrame)) = 4
   \<and> rowStride (projr (cropAndBin plainCodec (config True 0 0 True False) spotFrame)) = 5
   \<and> RAW10 (bdata (projr (cropAndBin plainCodec (config True 0 0 True False) spotFrame))) 1 0
        (rowStride (projr (cropAndBin plainCodec (config True 0 0 True False) spotFrame))) = 1
   \<and> binSpec RAW10 spotFrame (bdata spotFrame) 1 0 = 0"
proof -
  let ?s = "config True 0 0 True False"
  let ?d = "zeroBytes(5 := 1)"
  let ?b1 = "lock spotFrame"
  define R where "R = binRowPair RAW10 to_uint16 ?b1 ?d 0 0 8 4 0 (\<lambda>i. 0, \<lambda>i. 0)"
  define d1 where "d1 = packRAW10 (fst R) 2 0 (?d, 0)"
  define d2 where "d2 = packRAW10 (snd R) 2 0 d1"
  have hc: "horizontalCrop ?s spotFrame = 0" by (rule horizontalCrop_zero) (simp add: config_def)
  have vc: "verticalCrop ?s spotFrame = 0" by (rule verticalCrop_zero) (simp add: config_def)
  have cw: "croppedWidth ?s spotFrame = 8" by (simp add: croppedWidth_def hc spot_fields)
  have ch: "croppedHeight ?s spotFrame = 4" by (simp add: croppedHeight_def vc spot_fields)
  have nc: "\<not> mEnableCompression ?s" by (simp add: config_def)
  have loop: "cropAndBin_RAW10 plainCodec ?b1 ?d 0 4 0 8 4 False = (fst d2, snd d2)"
    unfolding cropAndBin_RAW10_def
    by (simp add: binLoop_step binLoop_stop d2_def d1_def R_def)
  have res: "cropAndBin plainCodec ?s spotFrame =
      Inr (setValidRange 0 (snd d2)
        ((unlock (?b1\<lparr>bdata := fst d2\<rparr>))\<lparr>width := 4, height := 2, isBinned := True,
          rowStride := 5, isCompressed := False, compressionType := UNCOMPRESSED\<rparr>))"
    unfolding cropAndBin_def Let_def hc vc cw ch
    using nc
    apply (simp add: spot_fields lock_fields loop)
    apply (simp add: lock_def unlock_def spot_fields case_prod_beta signed_divide_int_def)
    done
  have conv: "to_uint16 i = i" if "0 \<le> i" "i < 2 * (4 div 2)" for i
    using that by (simp add: to_uint16_def)
  have v0: "fst R ((0 - 0) div 4) = binPixel RAW10 ?b1 ?d 0 0
      \<and> fst R ((0 - 0) div 4 + 4 div 2) = binPixel RAW10 ?b1 ?d (0 + 1) 0"
    unfolding R_def
    using binRowPair_values [of 0 0 8 4 to_uint16 0 RAW10 ?b1 ?d 0 "\<lambda>i. 0" "\<lambda>i. 0"] conv
    by simp
  have v4: "fst R ((4 - 0) div 4) = binPixel RAW10 ?b1 ?d 4 0
      \<and> fst R ((4 - 0) div 4 + 4 div 2) = binPixel RAW10 ?b1 ?d (4 + 1) 0"
    unfolding R_def
    using binRowPair_values [of 0 0 8 4 to_uint16 4 RAW10 ?b1 ?d 0 "\<lambda>i. 0" "\<lambda>i. 0"] conv
    by simp
  have r: "fst R 0 = 0" "fst R 1 = 1" "fst R 2 = 0" "fst R 3 = 0"
    using v0 v4
    by (simp_all add: binPixel_spot_0_0 binPixel_spot_1_0 binPixel_spot_4_0 binPixel_spot_5_0)
  have b1: "fst d1 1 = 0" and b4: "fst d1 4 = 4" and o1: "snd d1 = 5"
    unfolding d1_def by (simp_all add: packRAW10_step packRAW10_stop r)
  have d1p: "d1 = (fst d1, 5)" using o1 by (cases d1) simp
  have "fst d2 a = fst d1 a" if "a < 5" for a
    unfolding d2_def by (subst d1p) (rule packRAW10_below [OF that])
  then have e: "fst d2 1 = 0" "fst d2 4 = 4" using b1 b4 by simp_all
  have rd: "RAW10 (fst d2) 1 0 5 = 1"
    by (simp add: RAW10_def Let_def e drop_bit_eq_div push_bit_eq_mult)
  have "binSpec RAW10 ?b1 ?d 1 0 = uint (binPixel RAW10 ?b1 ?d 1 0)"
    by (rule binPixel_eq_binSpec [symmetric]) (rule RAW10_bound14)
  moreover have "binSpec RAW10 spotFrame (bdata spotFrame) 1 0 = binSpec RAW10 ?b1 ?d 1 0"
    by (simp add: binSpec_def lock_def spot_fields)
  ultimately have sp: "binSpec RAW10 spotFrame (bdata spotFrame) 1 0 = 0"
    by (simp add: binPixel_spot_1_0)
  show ?thesis
    unfolding res using rd sp
    by (simp add: setValidRange_def unlock_def lock_def spot_fields)
qed

section \<open>Binning a RAW12 frame end to end\<close>

lemma wrap_fields:
  "width wrapFrame = 4" "height wrapFrame = 6" "rowStride wrapFrame = 6"
  "bdata wrapFrame = zeroBytes(0 := 0xFF)" "pixelFormat wrapFrame = PF_RAW12"
  by (simp_all add: wrapFrame_def frame_def)

lemma RAW12_wrap:
  "0 \<le> x \<Longrightarrow> x < 4 \<Longrightarrow> 0 \<le> y \<Longrightarrow> y < 6 \<Longrightarrow>
   RAW12 (zeroBytes(0 := 0xFF)) x y 6 = (if x = 0 \<and> y = 0 then 4080 else 0)"
proof -
  assume a: "0 \<le> x" "x < 4" "0 \<le> y" "y < 6"
  then have "x \<in> {0,1,2,3}" "y \<in> {0,1,2,3,4,5}" by auto
  then show ?thesis
    by (auto simp add: RAW12_def Let_def zeroBytes_def drop_bit_eq_div push_bit_eq_mult)
qed

lemma RAW12_wrap1:
  "RAW12 wrapBytes1 0 0 6 = 2295" "RAW12 wrapBytes1 2 0 6 = 765"
  "RAW12 wrapBytes1 0 2 6 = 0" "RAW12 wrapBytes1 2 2 6 = 0"
  "RAW12 wrapBytes1 0 4 6 = 0" "RAW12 wrapBytes1 2 4 6 = 0"
  by (simp_all add: RAW12_def Let_def wrapBytes1_def zeroBytes_def drop_bit_eq_div
      push_bit_eq_mult)

lemma binPixel_wrap_0_0: "binPixel RAW12 (lock wrapFrame) (zeroBytes(0 := 0xFF)) 0 0 = 2295"
  unfolding binPixel_unfold [of RAW12 "zeroBytes(0 := 0xFF)" "lock wrapFrame" 0 0,
      OF RAW12_bound14]
  by (simp add: lock_def wrap_fields smod_nonneg_eq RAW12_wrap)

lemma binPixel_wrap_1_0: "binPixel RAW12 (lock wrapFrame) (zeroBytes(0 := 0xFF)) 1 0 = 765"
  unfolding binPixel_unfold [of RAW12 "zeroBytes(0 := 0xFF)" "lock wrapFrame" 1 0,
      OF RAW12_bound14]
  by (simp add: lock_def wrap_fields smod_nonneg_eq RAW12_wrap)

lemma binPixel_wrap_0_1: "binPixel RAW12 (lock wrapFrame) (zeroBytes(0 := 0xFF)) 0 1 = 765"
  unfolding binPixel_unfold [of RAW12 "zeroBytes(0 := 0xFF)" "lock wrapFrame" 0 1,
      OF RAW12_bound14]
  by (simp add: lock_def wrap_fields smod_nonneg_eq RAW12_wrap)

lemma binPixel_wrap_1_1: "binPixel RAW12 (lock wrapFrame) (zeroBytes(0 := 0xFF)) 1 1 = 255"
  unfolding binPixel_unfold [of RAW12 "zeroBytes(0 := 0xFF)" "lock wrapFrame" 1 1,
      OF RAW12_bound14]
  by (simp add: lock_def wrap_fields smod_nonneg_eq RAW12_wrap)

lemma binPixel_wrap1_0_4: "binPixel RAW12 (lock wrapFrame) wrapBytes1 0 4 = 478"
  unfolding binPixel_unfold [of RAW12 wrapBytes1 "lock wrapFrame" 0 4, OF RAW12_bound14]
  by (simp add: lock_def wrap_fields smod_nonneg_eq RAW12_wrap1)

lemma binSpec_wrap_0_4: "binSpec RAW12 wrapFrame (bdata wrapFrame) 0 4 = 765"
  by (simp add: binSpec_def Let_def wrap_fields smod_nonneg_eq RAW12_wrap)


text \<open>
  C3. The claim: every sample of the binned frame is the weighted sum, divided by 16, of
  the like-colour 3x3 neighbourhood in the frame, the bottom neighbour row taken
  \<open>% height\<close>. \<open>cropAndBin\<close> writes its output over the frame as it goes: when a
  block row makes the bottom neighbour wrap to rows 0 and 1, these rows already hold
  the packed output of the first block row, and the kernel sums output bytes. On
  \<open>wrapFrame\<close>, binned without crop and without compression, the sample \<open>(0, 2)\<close> of
  the result, the cell of source pixel \<open>(0, 4)\<close>, is 478; the weighted sum over the
  frame is \<open>(4080 + 2 * 4080) div 16 = 765\<close>.
\<close>

theorem cropAndBin_reads_overwritten_rows:
  "\<not> isl (cropAndBin plainCodec (config True 0 0 True False) wrapFrame)
   \<and> pixelFormat (projr (cropAndBin plainCodec (config True 0 0 True False) wrapFrame)) = PF_RAW12
   \<and> width (projr (cropAndBin plainCodec (config True 0 0 True False) wrapFrame)) = 2
   \<and> height (projr (cropAndBin plainCodec (config True 0 0 True False) wrapFrame)) = 3
   \<and> rowStride (projr (cropAndBin plainCodec (config True 0 0 True False) wrapFrame)) = 3
   \<and> RAW12 (bdata (projr (cropAndBin plainCodec (config True 0 0 True False) wrapFrame))) 0 2
        (rowStride (projr (cropAndBin plainCodec (config True 0 0 True False) wrapFrame))) = 478
   \<and> binSpec RAW12 wrapFrame (bdata wrapFrame) 0 4 = 765"
proof -
  let ?s = "config True 0 0 True False"
  let ?d = "zeroBytes(0 := 0xFF)"
  let ?b1 = "lock wrapFrame"
  define R0 where "R0 = binRowPair RAW12 (\<lambda>v. v) ?b1 ?d 0 0 4 2 0 (\<lambda>i. 0, \<lambda>i. 0)"
  define d1 where "d1 = packRAW12 (fst R0) 1 0 (?d, 0)"
  define d2 where "d2 = packRAW12 (snd R0) 1 0 d1"
  define R1 where "R1 = binRowPair RAW12 (\<lambda>v. v) ?b1 (fst d2) 4 0 4 2 0 (fst R0, snd R0)"
  define d3 where "d3 = packRAW12 (fst R1) 1 0 (fst d2, snd d2)"
  define d4 where "d4 = packRAW12 (snd R1) 1 0 d3"
  have hc: "horizontalCrop ?s wrapFrame = 0" by (rule horizontalCrop_zero) (simp add: config_def)
  have vc: "verticalCrop ?s wrapFrame = 0" by (rule verticalCrop_zero) (simp add: config_def)
  have cw: "croppedWidth ?s wrapFrame = 4" by (simp add: croppedWidth_def hc wrap_fields)
  have ch: "croppedHeight ?s wrapFrame = 6" by (simp add: croppedHeight_def vc wrap_fields)
  have nc: "\<not> mEnableCompression ?s" by (simp add: config_def)
  have loop: "cropAndBin_RAW12 plainCodec ?b1 ?d 0 6 0 4 2 False = (fst d4, snd d4)"
    unfolding cropAndBin_RAW12_def
    by (simp add: binLoop_step binLoop_stop d4_def d3_def R1_def d2_def d1_def R0_def)
  have res: "cropAndBin plainCodec ?s wrapFrame =
      Inr (setValidRange 0 (snd d4)
        ((unlock (?b1\<lparr>bdata := fst d4\<rparr>))\<lparr>width := 2, height := 3, isBinned := True,
          rowStride := 3, isCompressed := False, compressionType := UNCOMPRESSED\<rparr>))"
    unfolding cropAndBin_def Let_def hc vc cw ch
    using nc
    apply (simp add: wrap_fields lock_fields loop)
    apply (simp add: lock_def unlock_def wrap_fields case_prod_beta signed_divide_int_def)
    done
  have r0: "fst R0 0 = 2295" "fst R0 1 = 765" "snd R0 0 = 765" "snd R0 1 = 255"
    unfolding R0_def
    by (simp_all add: binRowPair_step binRowPair_stop binPixel_wrap_0_0 binPixel_wrap_1_0
        binPixel_wrap_0_1 binPixel_wrap_1_1)
  have d1e: "d1 = (?d(0 := 0x8F, 1 := 0x2F, 2 := 0xD7), 3)"
    unfolding d1_def by (simp add: packRAW12.simps Let_def r0 drop_bit_eq_div push_bit_eq_mult)
  have d2e: "d2 = (wrapBytes1, 6)"
    unfolding d2_def d1e wrapBytes1_def
    by (simp add: packRAW12.simps Let_def r0 drop_bit_eq_div push_bit_eq_mult)
  have r1: "fst R1 0 = 478"
    unfolding R1_def d2e
    by (subst binRowPair_step) (simp_all add: binRowPair_stop binPixel_wrap1_0_4)
  have d3b: "fst d3 6 = ucast (drop_bit 4 (fst R1 0))"
    "fst d3 8 = ucast (fst R1 0 AND 0x0F) OR ucast (push_bit 4 (fst R1 1 AND 0x0F))"
    and o3: "snd d3 = 9"
    unfolding d3_def d2e by (simp_all add: packRAW12.simps Let_def)
  have d3p: "d3 = (fst d3, 9)" using o3 by (cases d3) simp
  have "fst d4 a = fst d3 a" if "a < 9" for a
    unfolding d4_def by (subst d3p) (rule packRAW12_below [OF that])
  then have e: "fst d4 6 = ucast (drop_bit 4 (fst R1 0))"
    "fst d4 8 = ucast (fst R1 0 AND 0x0F) OR ucast (push_bit 4 (fst R1 1 AND 0x0F))"
    using d3b by simp_all
  have lt: "fst R1 0 < 4096" unfolding r1 by simp
  have e': "fst d4 (2 * 3 + 3 * 0) = ucast (drop_bit 4 (fst R1 0))"
    "fst d4 (2 * 3 + 3 * 0 + 2)
       = ucast (fst R1 0 AND 0x0F) OR ucast (push_bit 4 (fst R1 1 AND 0x0F))"
    using e by simp_all
  have "RAW12 (fst d4) (2 * 0) 2 3 = fst R1 0"
    unfolding RAW12_even e' by (rule raw12_join_even [OF lt])
  then have rd: "RAW12 (fst d4) 0 2 3 = 478" by (simp add: r1)
  show ?thesis
    unfolding res using rd binSpec_wrap_0_4
    by (simp add: setValidRange_def unlock_def lock_def wrap_fields)
qed

section \<open>Crop: repacking RAW16 as RAW12\<close>

lemma raw12_join_low:
  fixes v w :: "16 word"
  shows "push_bit 4 (ucast (ucast (drop_bit 4 v) :: 8 word) :: 16 word)
           OR (ucast (ucast (v AND 0x0F) OR ucast (push_bit 4 (w AND 0x0F)) :: 8 word) AND 0x0F)
         = v AND 0x0FFF"
proof -
  have m: "(0x0F :: 16 word) = mask 4" by (simp add: mask_eq_exp_minus_1)
  have m': "(0x0FFF :: 16 word) = mask 12" by (simp add: mask_eq_exp_minus_1)
  show ?thesis
    unfolding m m'
    apply (rule bit_word_eqI)
    apply (auto simp add: bit_simps)
    done
qed

lemma raw12_join_high:
  fixes v w :: "16 word"
  shows "push_bit 4 (ucast (ucast (drop_bit 4 w) :: 8 word) :: 16 word)
           OR (drop_bit 4 (ucast (ucast (v AND 0x0F) OR ucast (push_bit 4 (w AND 0x0F)) :: 8 word))
                AND 0x0F)
         = w AND 0x0FFF"
proof -
  have m: "(0x0F :: 16 word) = mask 4" by (simp add: mask_eq_exp_minus_1)
  have m': "(0x0FFF :: 16 word) = mask 12" by (simp add: mask_eq_exp_minus_1)
  have r: "4 + (n - 4) = n" if "\<not> n < 4" for n :: nat using that by simp
  show ?thesis
    unfolding m m'
    apply (rule bit_word_eqI)
    apply (auto simp add: bit_simps)
    apply (metis r)
    done
qed

lemma RAW16_cong:
  assumes "data' (y * stride + x * 2) = data (y * stride + x * 2)"
    and "data' (y * stride + x * 2 + 1) = data (y * stride + x * 2 + 1)"
  shows "RAW16 data' x y stride = RAW16 data x y stride"
  using assms by (simp add: RAW16_def Let_def)

lemma pack16Row_step:
  "x < xend \<Longrightarrow>
   pack16Row stride xend y x (data, d) =
   pack16Row stride xend y (x + 2)
     (data(d := ucast (drop_bit 4 (RAW16 data x y stride)),
           d + 1 := ucast (drop_bit 4 (RAW16 data (x + 1) y stride)),
           d + 2 := ucast (RAW16 data x y stride AND 0x0F)
                      OR ucast (push_bit 4 (RAW16 data (x + 1) y stride AND 0x0F))),
      d + 3)"
  by (subst pack16Row.simps) (simp add: Let_def)

lemma pack16Row_stop: "\<not> x < xend \<Longrightarrow> pack16Row stride xend y x st = st"
  by (cases st) (simp add: pack16Row.simps)

lemma pack16Row_frame:
  "a < d \<or> d + 3 * int n \<le> a \<Longrightarrow>
   fst (pack16Row stride (x + 2 * int n) y x (data, d)) a = data a"
proof (induction n arbitrary: x data d)
  case 0
  then show ?case by (simp add: pack16Row_stop)
next
  case (Suc n)
  have lt: "x < x + 2 * int (Suc n)" by simp
  have e: "x + 2 * int (Suc n) = (x + 2) + 2 * int n" by simp
  have a: "a < d + 3 \<or> d + 3 + 3 * int n \<le> a" using Suc.prems by auto
  show ?case
    unfolding pack16Row_step [OF lt]
    unfolding e Suc.IH [OF a]
    using Suc.prems by auto
qed

lemma pack16Row_offset:
  "snd (pack16Row stride (x + 2 * int n) y x (data, d)) = d + 3 * int n"
proof (induction n arbitrary: x data d)
  case 0
  then show ?case by (simp add: pack16Row_stop)
next
  case (Suc n)
  have lt: "x < x + 2 * int (Suc n)" by simp
  have e: "x + 2 * int (Suc n) = (x + 2) + 2 * int n" by simp
  show ?case
    unfolding pack16Row_step [OF lt]
    unfolding e Suc.IH
    by simp
qed

lemma pack16Row_bytes:
  assumes "d \<le> y * stride + x * 2" and "0 \<le> j" and "j < int n"
  shows "fst (pack16Row stride (x + 2 * int n) y x (data, d)) (d + 3 * j)
           = ucast (drop_bit 4 (RAW16 data (x + 2 * j) y stride))
       \<and> fst (pack16Row stride (x + 2 * int n) y x (data, d)) (d + 3 * j + 1)
           = ucast (drop_bit 4 (RAW16 data (x + 2 * j + 1) y stride))
       \<and> fst (pack16Row stride (x + 2 * int n) y x (data, d)) (d + 3 * j + 2)
           = ucast (RAW16 data (x + 2 * j) y stride AND 0x0F)
               OR ucast (push_bit 4 (RAW16 data (x + 2 * j + 1) y stride AND 0x0F))"
  using assms
proof (induction n arbitrary: x data d j)
  case 0
  then show ?case by simp
next
  case (Suc n)
  have lt: "x < x + 2 * int (Suc n)" by simp
  have e: "x + 2 * int (Suc n) = (x + 2) + 2 * int n" by simp
  define data' where "data' = data(d := ucast (drop_bit 4 (RAW16 data x y stride)),
           d + 1 := ucast (drop_bit 4 (RAW16 data (x + 1) y stride)),
           d + 2 := ucast (RAW16 data x y stride AND 0x0F)
                      OR ucast (push_bit 4 (RAW16 data (x + 1) y stride AND 0x0F)))"
  have st: "pack16Row stride (x + 2 * int (Suc n)) y x (data, d)
            = pack16Row stride ((x + 2) + 2 * int n) y (x + 2) (data', d + 3)"
    unfolding e [symmetric] data'_def by (rule pack16Row_step [OF lt])
  show ?case
  proof (cases "j = 0")
    case True
    have f: "fst (pack16Row stride ((x + 2) + 2 * int n) y (x + 2) (data', d + 3)) a = data' a"
      if "a < d + 3" for a
      using pack16Row_frame [of a "d + 3" n stride "x + 2" y data'] that by simp
    show ?thesis
      unfolding st True using f [of d] f [of "d + 1"] f [of "d + 2"]
      by (simp add: data'_def)
  next
    case False
    define i where "i = j - 1"
    have i: "0 \<le> i" "i < int n" "j = i + 1" using False Suc.prems by (simp_all add: i_def)
    have d': "d + 3 \<le> y * stride + (x + 2) * 2" using Suc.prems(1) by simp
    have same: "RAW16 data' x' y stride = RAW16 data x' y stride" if "x + 2 \<le> x'" for x'
    proof (rule RAW16_cong)
      have "d + 2 < y * stride + x' * 2" using Suc.prems(1) that by simp
      then show "data' (y * stride + x' * 2) = data (y * stride + x' * 2)"
        and "data' (y * stride + x' * 2 + 1) = data (y * stride + x' * 2 + 1)"
        by (simp_all add: data'_def)
    qed
    have s1: "RAW16 data' (x + 2 + 2 * i) y stride = RAW16 data (x + 2 * j) y stride"
      using same [of "x + 2 + 2 * i"] i by (simp add: algebra_simps)
    have s2: "RAW16 data' (x + 2 + 2 * i + 1) y stride = RAW16 data (x + 2 * j + 1) y stride"
      using same [of "x + 2 + 2 * i + 1"] i by (simp add: algebra_simps)
    have p: "d + 3 + 3 * i = d + 3 * j" using i by simp
    from Suc.IH [OF d' i(1,2), of data']
    show ?thesis
      unfolding st s1 s2 p .
  qed
qed

lemma pack16Rows_step:
  "y < yend \<Longrightarrow>
   pack16Rows stride xstart xend yend y st =
   pack16Rows stride xstart xend yend (y + 1) (pack16Row stride xend y xstart st)"
  by (subst pack16Rows.simps) simp

lemma pack16Rows_stop: "\<not> y < yend \<Longrightarrow> pack16Rows stride xstart xend yend y st = st"
  by (subst pack16Rows.simps) simp

lemma pack16Row_pair:
  "pack16Row stride (x + 2 * int n) y x (data, d)
   = (fst (pack16Row stride (x + 2 * int n) y x (data, d)), d + 3 * int n)"
  using pack16Row_offset [of stride x n y data d] by (simp add: prod_eq_iff)

lemma pack16Rows_below:
  "a < d \<Longrightarrow>
   fst (pack16Rows stride xstart (xstart + 2 * int n) (y + int m) y (data, d)) a = data a"
proof (induction m arbitrary: y data d)
  case 0
  then show ?case by (simp add: pack16Rows_stop)
next
  case (Suc m)
  have lt: "y < y + int (Suc m)" by simp
  have e: "y + int (Suc m) = (y + 1) + int m" by simp
  have a: "a < d + 3 * int n" using Suc.prems by simp
  define data' where "data' = fst (pack16Row stride (xstart + 2 * int n) y xstart (data, d))"
  have p: "pack16Row stride (xstart + 2 * int n) y xstart (data, d) = (data', d + 3 * int n)"
    unfolding data'_def by (rule pack16Row_pair)
  have st: "pack16Rows stride xstart (xstart + 2 * int n) (y + int (Suc m)) y (data, d)
            = pack16Rows stride xstart (xstart + 2 * int n) (y + 1 + int m) (y + 1)
                (data', d + 3 * int n)"
    unfolding e [symmetric] p [symmetric] by (rule pack16Rows_step [OF lt])
  have "fst (pack16Rows stride xstart (xstart + 2 * int n) (y + 1 + int m) (y + 1)
          (data', d + 3 * int n)) a = data' a"
    by (rule Suc.IH [OF a])
  also have "\<dots> = data a"
    unfolding data'_def
    using pack16Row_frame [of a d n stride xstart y data] Suc.prems by simp
  finally show ?case
    unfolding st .
qed

lemma pack16Rows_bytes:
  assumes "0 \<le> stride" and "3 * int n \<le> stride" and "d \<le> y * stride + xstart * 2"
    and "0 \<le> r" and "r < int m" and "0 \<le> j" and "j < int n"
  shows "fst (pack16Rows stride xstart (xstart + 2 * int n) (y + int m) y (data, d))
             (d + 3 * (r * int n + j))
           = ucast (drop_bit 4 (RAW16 data (xstart + 2 * j) (y + r) stride))
       \<and> fst (pack16Rows stride xstart (xstart + 2 * int n) (y + int m) y (data, d))
             (d + 3 * (r * int n + j) + 1)
           = ucast (drop_bit 4 (RAW16 data (xstart + 2 * j + 1) (y + r) stride))
       \<and> fst (pack16Rows stride xstart (xstart + 2 * int n) (y + int m) y (data, d))
             (d + 3 * (r * int n + j) + 2)
           = ucast (RAW16 data (xstart + 2 * j) (y + r) stride AND 0x0F)
               OR ucast (push_bit 4 (RAW16 data (xstart + 2 * j + 1) (y + r) stride AND 0x0F))"
  using assms(3,4,5)
proof (induction m arbitrary: y data d r)
  case 0
  then show ?case by simp
next
  case (Suc m)
  have lt: "y < y + int (Suc m)" by simp
  have e: "y + int (Suc m) = (y + 1) + int m" by simp
  define data' where "data' = fst (pack16Row stride (xstart + 2 * int n) y xstart (data, d))"
  have p: "pack16Row stride (xstart + 2 * int n) y xstart (data, d) = (data', d + 3 * int n)"
    unfolding data'_def by (rule pack16Row_pair)
  have st: "pack16Rows stride xstart (xstart + 2 * int n) (y + int (Suc m)) y (data, d)
            = pack16Rows stride xstart (xstart + 2 * int n) (y + 1 + int m) (y + 1)
                (data', d + 3 * int n)"
    unfolding e [symmetric] p [symmetric] by (rule pack16Rows_step [OF lt])
  show ?case
  proof (cases "r = 0")
    case True
    have f: "fst (pack16Rows stride xstart (xstart + 2 * int n) (y + 1 + int m) (y + 1)
                (data', d + 3 * int n)) a = data' a" if "a < d + 3 * int n" for a
      by (rule pack16Rows_below [OF that])
    have b: "d + 3 * j < d + 3 * int n" "d + 3 * j + 1 < d + 3 * int n"
      "d + 3 * j + 2 < d + 3 * int n"
      using assms(6,7) by simp_all
    have z: "d + 3 * (0 * int n + j) = d + 3 * j" "y + 0 = y" by simp_all
    show ?thesis
      unfolding st True z f [OF b(1)] f [OF b(2)] f [OF b(3)]
      unfolding data'_def
      by (rule pack16Row_bytes [OF Suc.prems(1) assms(6,7)])
  next
    case False
    define i where "i = r - 1"
    have i: "0 \<le> i" "i < int m" "r = i + 1" using False Suc.prems by (simp_all add: i_def)
    have d': "d + 3 * int n \<le> (y + 1) * stride + xstart * 2"
      using Suc.prems(1) assms(2) by (simp add: algebra_simps)
    have ist: "0 \<le> i * stride" using i(1) assms(1) by simp
    have same: "RAW16 data' x' (y + 1 + i) stride = RAW16 data x' (y + 1 + i) stride"
      if "xstart \<le> x'" for x'
    proof (rule RAW16_cong)
      have "(y + 1 + i) * stride = (y + 1) * stride + i * stride" by (simp add: algebra_simps)
      then have "d + 3 * int n \<le> (y + 1 + i) * stride + x' * 2" using d' ist that by simp
      then show "data' ((y + 1 + i) * stride + x' * 2) = data ((y + 1 + i) * stride + x' * 2)"
        and "data' ((y + 1 + i) * stride + x' * 2 + 1)
             = data ((y + 1 + i) * stride + x' * 2 + 1)"
        unfolding data'_def by (simp_all add: pack16Row_frame)
    qed
    have s1: "RAW16 data' (xstart + 2 * j) (y + 1 + i) stride
              = RAW16 data (xstart + 2 * j) (y + r) stride"
      using same [of "xstart + 2 * j"] assms(6) i(3) by (simp add: ac_simps)
    have s2: "RAW16 data' (xstart + 2 * j + 1) (y + 1 + i) stride
              = RAW16 data (xstart + 2 * j + 1) (y + r) stride"
      using same [of "xstart + 2 * j + 1"] assms(6) i(3) by (simp add: ac_simps)
    have p: "d + 3 * int n + 3 * (i * int n + j) = d + 3 * (r * int n + j)"
      using i(3) by (simp add: algebra_simps)
    from Suc.IH [OF d' i(1,2), of data']
    show ?thesis
      unfolding st s1 s2 p .
  qed
qed

lemma crop_RAW16_fields:
  assumes "pixelFormat b = PF_RAW16"
  shows "rowStride (crop s b) = (12 * croppedWidth s b) sdiv 8"
    and "bdata (crop s b) =
           fst (pack16Rows (rowStride b) (horizontalCrop s b) (width b - horizontalCrop s b)
                  (height b - verticalCrop s b) (verticalCrop s b) (bdata b, 0))"
  using assms
  by (simp_all add: crop_def Let_def lock_def unlock_def setValidRange_def split: prod.split)

text \<open>
  The RAW16 branch of \<open>crop\<close> repacks in place: the write position never passes the read
  position when the row stride holds a full row of 16-bit samples. Read as RAW12 with
  the new stride, pixel \<open>(x, y)\<close> of the result is the kept sample
  \<open>(horizontalCrop + x, verticalCrop + y)\<close> of the RAW16 frame cut to its low 12 bits.
\<close>

lemma crop_RAW16_pixels:
  assumes "pixelFormat b = PF_RAW16"
    and "0 \<le> horizontalCrop s b" and "0 \<le> verticalCrop s b"
    and "even (croppedWidth s b)" and "2 * width b \<le> rowStride b"
    and "0 \<le> x" and "x < croppedWidth s b" and "0 \<le> y" and "y < croppedHeight s b"
  shows "RAW12 (bdata (crop s b)) x y (rowStride (crop s b))
         = RAW16 (bdata b) (horizontalCrop s b + x) (verticalCrop s b + y) (rowStride b)
             AND 0x0FFF"
proof -
  define hc where "hc = horizontalCrop s b"
  define vc where "vc = verticalCrop s b"
  define n where "n = nat (croppedWidth s b div 2)"
  define m where "m = nat (croppedHeight s b)"
  define stride where "stride = rowStride b"
  define j where "j = x div 2"
  have cw: "croppedWidth s b = 2 * int n" using assms(4,6,7) by (auto simp add: n_def)
  have ch: "croppedHeight s b = int m" using assms(8,9) by (simp add: m_def)
  have xend: "width b - hc = hc + 2 * int n"
    using cw by (simp add: croppedWidth_def hc_def)
  have yend: "height b - vc = vc + int m"
    using ch by (simp add: croppedHeight_def vc_def)
  have st0: "0 \<le> stride" "3 * int n \<le> stride"
    using assms(2,5) cw by (simp_all add: stride_def croppedWidth_def)
  have d0: "0 \<le> vc * stride + hc * 2" using assms(2,3) st0(1) by (simp add: hc_def vc_def)
  have j: "0 \<le> j" "j < int n" using assms(6,7) cw by (simp_all add: j_def)
  have r: "0 \<le> y" "y < int m" using assms(8,9) ch by simp_all
  have rs: "rowStride (crop s b) = 3 * int n"
    unfolding crop_RAW16_fields(1) [OF assms(1)] cw
    by (simp add: sdiv_nonneg_eq)
  define out where "out = bdata (crop s b)"
  have out: "out = fst (pack16Rows stride hc (hc + 2 * int n) (vc + int m) vc (bdata b, 0))"
    unfolding out_def crop_RAW16_fields(2) [OF assms(1)]
    by (simp add: hc_def vc_def stride_def xend [unfolded hc_def] yend [unfolded vc_def])
  from pack16Rows_bytes [OF st0 d0 r j, of "bdata b"]
  have bytes: "out (y * (3 * int n) + 3 * j)
                 = ucast (drop_bit 4 (RAW16 (bdata b) (hc + 2 * j) (vc + y) stride))"
    "out (y * (3 * int n) + 3 * j + 1)
                 = ucast (drop_bit 4 (RAW16 (bdata b) (hc + 2 * j + 1) (vc + y) stride))"
    "out (y * (3 * int n) + 3 * j + 2)
                 = ucast (RAW16 (bdata b) (hc + 2 * j) (vc + y) stride AND 0x0F)
                     OR ucast (push_bit 4
                          (RAW16 (bdata b) (hc + 2 * j + 1) (vc + y) stride AND 0x0F))"
    unfolding out by (simp_all add: algebra_simps)
  show ?thesis
  proof (cases "even x")
    case True
    then have x: "x = 2 * j" by (auto simp add: j_def)
    have "RAW12 out (2 * j) y (3 * int n)
          = RAW16 (bdata b) (hc + 2 * j) (vc + y) stride AND 0x0FFF"
      unfolding RAW12_even bytes by (rule raw12_join_low)
    then show ?thesis
      unfolding rs out_def [symmetric] hc_def [symmetric] vc_def [symmetric]
        stride_def [symmetric] x .
  next
    case False
    then have x: "x = 2 * j + 1" by (auto simp add: j_def elim!: oddE)
    have "RAW12 out (2 * j + 1) y (3 * int n)
          = RAW16 (bdata b) (hc + 2 * j + 1) (vc + y) stride AND 0x0FFF"
      unfolding RAW12_odd bytes by (rule raw12_join_high)
    then show ?thesis
      unfolding rs out_def [symmetric] hc_def [symmetric] vc_def [symmetric]
        stride_def [symmetric] x by (simp add: add.assoc)
  qed
qed

text \<open>A RAW16 frame, 4 by 2, whose pixel \<open>(1, 0)\<close> is \<open>0x1234\<close>: it comes back as \<open>0x234\<close>.\<close>

lemma crop_RAW16_pixels_example:
  "RAW12 (bdata (crop (config True 0 0 False False)
            (frame PF_RAW16 4 2 8 (\<lambda>i. if i = 2 then 0x34 else if i = 3 then 0x12 else 0))))
      1 0 6 = 0x234
   \<and> RAW16 (\<lambda>i. if i = 2 then 0x34 else if i = 3 then 0x12 else 0) 1 0 8 = 0x1234"
  using crop_RAW16_pixels [of "frame PF_RAW16 4 2 8
      (\<lambda>i. if i = 2 then 0x34 else if i = 3 then 0x12 else 0)" "config True 0 0 False False" 1 0]
    crop_RAW16_fields(1) [of "frame PF_RAW16 4 2 8
      (\<lambda>i. if i = 2 then 0x34 else if i = 3 then 0x12 else 0)" "config True 0 0 False False"]
  by (simp add: frame_def config_def horizontalCrop_zero verticalCrop_zero croppedWidth_def
      croppedHeight_def RAW16_def sdiv_nonneg_eq)

text \<open>
  The product of the new stride and height is an \<open>int\<close>, and \<open>setValidRange\<close> takes
  a \<open>size_t\<close>. With a crop width of 200 percent on a RAW16 frame 8 wide and 4 high the
  cropped width is -8, the stride -12 and the product -48: the end of the valid range
  is \<open>2^64 - 48\<close>.
\<close>

lemma halfPercent_200_8: "halfPercent 200 8 = 8"
  by (simp add: halfPercent_eval)

lemma crop_RAW16_range_wraps:
  "validRange (crop (config True 200 0 False False) (frame PF_RAW16 8 4 16 (\<lambda>i. 0)))
   = (0, 2 ^ 64 - 48)"
proof -
  let ?b = "frame PF_RAW16 8 4 16 (\<lambda>i. 0)"
  let ?s = "config True 200 0 False False"
  have hc: "horizontalCrop ?s ?b = 8"
    by (simp add: horizontalCrop_def config_def frame_def halfPercent_200_8
        signed_divide_int_def)
  have vc: "verticalCrop ?s ?b = 0"
    by (simp add: verticalCrop_zero config_def)
  have cw: "croppedWidth ?s ?b = - 8" by (simp add: croppedWidth_def hc) (simp add: frame_def)
  have ch: "croppedHeight ?s ?b = 4" by (simp add: croppedHeight_def vc) (simp add: frame_def)
  have pf: "pixelFormat ?b = PF_RAW16" by (simp add: frame_def)
  have "validRange (crop ?s ?b)
        = (0, to_size_t (((12 * croppedWidth ?s ?b) sdiv 8) * croppedHeight ?s ?b))"
    using pf
    by (simp add: crop_def Let_def lock_def unlock_def setValidRange_def split: prod.split)
  then show ?thesis
    unfolding cw ch by (simp add: signed_divide_int_def to_size_t_def)
qed

section \<open>Bounds on the crop amounts\<close>

lemma bitlength_bounds: "0 < n \<Longrightarrow> 2 ^ (bitlength n - 1) \<le> n \<and> n < 2 ^ bitlength n"
proof (induction n rule: bitlength.induct)
  case (1 n)
  show ?case
  proof (cases "n div 2 = 0")
    case True
    with "1.prems" have "n = 1" by (simp add: div_eq_0_iff)
    then show ?thesis by (simp add: bitlength.simps)
  next
    case False
    then have pos: "0 < n div 2" by simp
    from "1.prems" have n0: "n \<noteq> 0" by simp
    from "1.IH" [OF n0 pos] have a: "2 ^ (bitlength (n div 2) - 1) \<le> n div 2"
      and b: "n div 2 < 2 ^ bitlength (n div 2)" by simp_all
    have bl: "bitlength n = Suc (bitlength (n div 2))" using n0 by (subst bitlength.simps) simp
    have bp: "0 < bitlength (n div 2)" using pos by (subst bitlength.simps) simp
    then have "(2::nat) ^ bitlength (n div 2) = 2 * 2 ^ (bitlength (n div 2) - 1)"
      by (cases "bitlength (n div 2)") simp_all
    then have "2 ^ bitlength (n div 2) \<le> 2 * (n div 2)" using a by simp
    also have "\<dots> \<le> n" by simp
    finally have lo: "2 ^ (bitlength n - 1) \<le> n" by (simp add: bl)
    have "n < 2 * (n div 2) + 2" by presburger
    also have "\<dots> \<le> 2 * 2 ^ bitlength (n div 2)" using b by simp
    finally have hi: "n < 2 ^ bitlength n" by (simp add: bl)
    from lo hi show ?thesis by simp
  qed
qed

lemma round_half_even_div_le:
  assumes "0 < b" and "a \<le> N * b"
  shows "round_half_even_div a b \<le> N"
proof (cases "a div b < N")
  case True
  then show ?thesis by (simp add: round_half_even_div_def Let_def)
next
  case False
  then have "N \<le> a div b" by simp
  moreover have "a div b \<le> N" using zdiv_mono1 [OF assms(2) assms(1)] assms(1) by simp
  ultimately have q: "a div b = N" by simp
  have "a = N * b + a mod b" using q by (metis mult.commute mult_div_mod_eq)
  with assms(2) have "a mod b \<le> 0" by simp
  moreover have "0 \<le> a mod b" using assms(1) by simp
  ultimately have "a mod b = 0" by simp
  then show ?thesis using q assms(1) by (simp add: round_half_even_div_def Let_def)
qed

lemma round_half_even_div_nonneg:
  "0 \<le> a \<Longrightarrow> 0 < b \<Longrightarrow> 0 \<le> round_half_even_div a b"
  by (simp add: round_half_even_div_def Let_def pos_imp_zdiv_nonneg_iff)


lemma two_powi_nonneg: "0 \<le> k \<Longrightarrow> (2::real) powi k = 2 ^ nat k"
  by (simp add: power_int_def)

lemma two_powi_neg: "k < 0 \<Longrightarrow> (2::real) powi k = 1 / 2 ^ nat (- k)"
  by (simp add: power_int_def inverse_eq_divide power_one_over)

lemma round_ratio_log:
  assumes "0 < n" and "0 < d"
  defines "t \<equiv> int (bitlength (nat n)) - int (bitlength (nat d))"
  defines "l \<equiv> (if (if 0 \<le> t then d * 2 ^ nat t \<le> n else d \<le> n * 2 ^ nat (- t))
                  then t else t - 1)"
  shows "2 powi l \<le> real_of_int n / real_of_int d"
proof -
  have dpos: "0 < real_of_int d" using assms(2) by simp
  show ?thesis
  proof (cases "if 0 \<le> t then d * 2 ^ nat t \<le> n else d \<le> n * 2 ^ nat (- t)")
    case True
    then have l: "l = t" by (simp add: l_def)
    show ?thesis
    proof (cases "0 \<le> t")
      case nonneg: True
      with True have "d * 2 ^ nat t \<le> n" by simp
      then have "real_of_int (d * 2 ^ nat t) \<le> real_of_int n" by (simp only: of_int_le_iff)
      then have "real_of_int d * 2 ^ nat t \<le> real_of_int n" by simp
      then show ?thesis
        unfolding l two_powi_nonneg [OF nonneg] using dpos by (simp add: field_simps)
    next
      case neg: False
      then have neg': "t < 0" by simp
      from True neg have "d \<le> n * 2 ^ nat (- t)" by simp
      then have "real_of_int d \<le> real_of_int (n * 2 ^ nat (- t))" by (simp only: of_int_le_iff)
      then have "real_of_int d \<le> real_of_int n * 2 ^ nat (- t)" by simp
      then show ?thesis
        unfolding l two_powi_neg [OF neg'] using dpos by (simp add: field_simps)
    qed
  next
    case False
    then have l: "l = t - 1" by (simp add: l_def)
    define bn where "bn = bitlength (nat n)"
    define bd where "bd = bitlength (nat d)"
    have n1: "2 ^ (bn - 1) \<le> nat n" and d1: "nat d < 2 ^ bd"
      using bitlength_bounds [of "nat n"] bitlength_bounds [of "nat d"] assms(1,2)
      by (simp_all add: bn_def bd_def)
    have bnpos: "0 < bn" using assms(1) unfolding bn_def by (subst bitlength.simps) simp
    have rn: "(2::real) ^ (bn - 1) \<le> real_of_int n"
    proof -
      have "real (2 ^ (bn - 1)) \<le> real (nat n)" using n1 by (simp only: of_nat_le_iff)
      then show ?thesis using assms(1) by simp
    qed
    have rd: "real_of_int d \<le> 2 ^ bd"
    proof -
      have "nat d \<le> 2 ^ bd" using d1 by simp
      then have "real (nat d) \<le> real (2 ^ bd)" by (simp only: of_nat_le_iff)
      then show ?thesis using assms(2) by simp
    qed
    have "l = int (bn - 1) - int bd" using bnpos by (simp add: l t_def bn_def bd_def)
    then have "(2::real) powi l = 2 powi int (bn - 1) / 2 powi int bd"
      by (simp add: power_int_diff)
    also have "\<dots> = 2 ^ (bn - 1) / 2 ^ bd" by simp
    also have "\<dots> \<le> real_of_int n / real_of_int d"
      using rn rd dpos assms(1) by (intro frac_le) simp_all
    finally show ?thesis .
  qed
qed

lemma round_ratio_bound:
  assumes "0 < n" and "0 < d" and "0 < M" and "M < 2 ^ 53"
    and "real_of_int n / real_of_int d \<le> real_of_int M * 2 powi j"
  shows "dval (round_ratio n d) \<le> real_of_int M * 2 powi j"
    and "0 \<le> fst (round_ratio n d)"
proof -
  define t where "t = int (bitlength (nat n)) - int (bitlength (nat d))"
  define l where "l = (if (if 0 \<le> t then d * 2 ^ nat t \<le> n else d \<le> n * 2 ^ nat (- t))
                  then t else t - 1)"
  define k where "k = l - 52"
  have dpos: "0 < real_of_int d" using assms(2) by simp
  have rr: "round_ratio n d =
      (if 0 \<le> k then (round_half_even_div n (d * 2 ^ nat k), k)
       else (round_half_even_div (n * 2 ^ nat (- k)) d, k))"
    using assms(1) by (simp add: round_ratio_def Let_def t_def l_def k_def)
  have "2 powi l \<le> real_of_int n / real_of_int d"
    unfolding l_def t_def by (rule round_ratio_log [OF assms(1,2)])
  also have "\<dots> \<le> real_of_int M * 2 powi j" by (rule assms(5))
  also have "\<dots> < 2 ^ 53 * 2 powi j"
  proof -
    have "real_of_int M < real_of_int (2 ^ 53)" using assms(4) by (simp only: of_int_less_iff)
    then show ?thesis by simp
  qed
  also have "\<dots> = 2 powi (53 + j)" by (simp add: power_int_add)
  finally have "(2::real) powi l < 2 powi (53 + j)" .
  then have "l < 53 + j"
    using power_int_increasing [of "53 + j" l "2::real"] by (cases "l < 53 + j") simp_all
  then have kj: "k \<le> j" by (simp add: k_def)
  define N where "N = M * 2 ^ nat (j - k)"
  have Nk: "real_of_int N * 2 powi k = real_of_int M * 2 powi j"
  proof -
    have "(2::real) powi j = 2 powi (j - k) * 2 powi k" by (simp flip: power_int_add)
    also have "(2::real) powi (j - k) = 2 ^ nat (j - k)" using kj by (simp add: two_powi_nonneg)
    finally show ?thesis by (simp add: N_def)
  qed
  have le: "real_of_int n / real_of_int d \<le> real_of_int N * 2 powi k"
    using assms(5) Nk by simp
  show "dval (round_ratio n d) \<le> real_of_int M * 2 powi j"
  proof (cases "0 \<le> k")
    case True
    have "real_of_int n \<le> real_of_int N * 2 ^ nat k * real_of_int d"
      using le dpos unfolding two_powi_nonneg [OF True] by (simp add: field_simps)
    then have "real_of_int n \<le> real_of_int (N * (d * 2 ^ nat k))" by (simp add: mult_ac)
    then have "n \<le> N * (d * 2 ^ nat k)" by (simp only: of_int_le_iff)
    then have "round_half_even_div n (d * 2 ^ nat k) \<le> N"
      using assms(2) by (intro round_half_even_div_le) simp_all
    then have "real_of_int (round_half_even_div n (d * 2 ^ nat k)) * 2 powi k
        \<le> real_of_int N * 2 powi k"
      by (intro mult_right_mono) simp_all
    then show ?thesis using True by (simp add: rr dval_def Nk)
  next
    case False
    then have neg: "k < 0" by simp
    have "real_of_int n * 2 ^ nat (- k) \<le> real_of_int N * real_of_int d"
      using le dpos unfolding two_powi_neg [OF neg] by (simp add: field_simps)
    then have "real_of_int (n * 2 ^ nat (- k)) \<le> real_of_int (N * d)" by simp
    then have "n * 2 ^ nat (- k) \<le> N * d" by (simp only: of_int_le_iff)
    then have "round_half_even_div (n * 2 ^ nat (- k)) d \<le> N"
      using assms(2) by (intro round_half_even_div_le) simp_all
    then have "real_of_int (round_half_even_div (n * 2 ^ nat (- k)) d) * 2 powi k
        \<le> real_of_int N * 2 powi k"
      by (intro mult_right_mono) simp_all
    then show ?thesis using False by (simp add: rr dval_def Nk)
  qed
  show "0 \<le> fst (round_ratio n d)"
    using assms(1,2) by (simp add: rr round_half_even_div_nonneg)
qed


lemma dbl_mult_zero: "fst x * fst y = 0 \<Longrightarrow> fst (dbl_mult x y) = 0"
  by (simp add: dbl_mult_def case_prod_beta round_ratio_def)

lemma dbl_mult_bound:
  assumes "0 < fst x" and "0 < fst y" and "0 < M" and "M < 2 ^ 53"
    and "dval x * dval y \<le> real_of_int M * 2 powi j"
  shows "dval (dbl_mult x y) \<le> real_of_int M * 2 powi j"
    and "0 \<le> fst (dbl_mult x y)"
proof -
  obtain mx ex where x: "x = (mx, ex)" by (cases x)
  obtain my ey where y: "y = (my, ey)" by (cases y)
  have pos: "0 < mx * my" using assms(1,2) by (simp add: x y)
  have dm: "dbl_mult x y = (fst (round_ratio (mx * my) 1), snd (round_ratio (mx * my) 1) + ex + ey)"
    using pos by (simp add: dbl_mult_def x y case_prod_beta)
  have "real_of_int (mx * my) * 2 powi (ex + ey) \<le> real_of_int M * 2 powi j"
    using assms(5) by (simp add: dval_def x y power_int_add mult_ac)
  then have "real_of_int (mx * my) * 2 powi (ex + ey) * 2 powi (- (ex + ey))
      \<le> real_of_int M * 2 powi j * 2 powi (- (ex + ey))"
    by (intro mult_right_mono) simp_all
  then have b: "real_of_int (mx * my) / real_of_int 1 \<le> real_of_int M * 2 powi (j - (ex + ey))"
    by (simp add: power_int_minus power_int_diff field_simps)
  note rr = round_ratio_bound [OF pos _ assms(3,4) b]
  have "dval (round_ratio (mx * my) 1) * 2 powi (ex + ey)
      \<le> real_of_int M * 2 powi (j - (ex + ey)) * 2 powi (ex + ey)"
    using rr(1) by (intro mult_right_mono) simp_all
  also have "\<dots> = real_of_int M * 2 powi j"
    by (simp add: power_int_diff)
  finally show "dval (dbl_mult x y) \<le> real_of_int M * 2 powi j"
    by (simp add: dm dval_def power_int_add mult_ac)
  show "0 \<le> fst (dbl_mult x y)" using rr(2) by (simp add: dm)
qed

lemma lround_bound:
  assumes "0 \<le> fst x" and "dval x \<le> real_of_int W / 2"
  shows "0 \<le> lround x \<and> 2 * lround x \<le> W + 1"
proof -
  obtain m e where x: "x = (m, e)" by (cases x)
  have m0: "0 \<le> m" using assms(1) by (simp add: x)
  show ?thesis
  proof (cases "0 \<le> e")
    case True
    have "real_of_int (m * 2 ^ nat e) \<le> real_of_int W / 2"
      using assms(2) True by (simp add: dval_def x two_powi_nonneg)
    then have "real_of_int (2 * (m * 2 ^ nat e)) \<le> real_of_int W" by simp
    then have "2 * (m * 2 ^ nat e) \<le> W" by (simp only: of_int_le_iff)
    then show ?thesis using True m0 by (simp add: lround_def x)
  next
    case False
    then have neg: "e < 0" by simp
    define g where "g = nat (- e)"
    have gpos: "0 < g" using neg by (simp add: g_def)
    define r where "r = (m + 2 ^ (g - 1)) div 2 ^ g"
    have lr: "lround x = sgn m * r" using False m0 by (simp add: lround_def x r_def g_def)
    have r0: "0 \<le> r" using m0 by (simp add: r_def pos_imp_zdiv_nonneg_iff)
    have "real_of_int m / 2 ^ g \<le> real_of_int W / 2"
      using assms(2) by (simp add: dval_def x two_powi_neg [OF neg] g_def)
    then have "real_of_int (2 * m) \<le> real_of_int (W * 2 ^ g)" by (simp add: field_simps)
    then have mW: "2 * m \<le> W * 2 ^ g" by (simp only: of_int_le_iff)
    have "r * 2 ^ g \<le> m + 2 ^ (g - 1)"
    proof -
      have "0 \<le> (m + 2 ^ (g - 1)) mod 2 ^ g" by simp
      moreover have "m + 2 ^ (g - 1) = r * 2 ^ g + (m + 2 ^ (g - 1)) mod 2 ^ g"
        unfolding r_def by (rule div_mult_mod_eq [symmetric])
      ultimately show ?thesis by linarith
    qed
    then have "2 * (r * 2 ^ g) \<le> 2 * m + 2 * 2 ^ (g - 1)" by simp
    also have "2 * (2::int) ^ (g - 1) = 2 ^ g" using gpos by (cases g) simp_all
    finally have "2 * r * 2 ^ g \<le> (W + 1) * 2 ^ g" using mW by (simp add: algebra_simps)
    then have r2: "2 * r \<le> W + 1" by simp
    have W0: "0 \<le> W + 1" using r0 r2 by simp
    show ?thesis
    proof (cases "m = 0")
      case True
      then show ?thesis using W0 by (simp add: lr)
    next
      case False
      with m0 have "sgn m = 1" by simp
      then show ?thesis using r0 r2 by (simp add: lr)
    qed
  qed
qed


lemma dbl_mult_bound_nonneg:
  assumes "0 \<le> fst x" and "0 \<le> fst y" and "0 < M" and "M < 2 ^ 53"
    and "dval x * dval y \<le> real_of_int M * 2 powi j"
  shows "dval (dbl_mult x y) \<le> real_of_int M * 2 powi j \<and> 0 \<le> fst (dbl_mult x y)"
proof (cases "fst x * fst y = 0")
  case True
  then have "fst (dbl_mult x y) = 0" by (rule dbl_mult_zero)
  moreover have "0 \<le> real_of_int M * 2 powi j" using assms(3) by simp
  ultimately show ?thesis by (simp add: dval_def)
next
  case False
  with assms(1,2) have "0 < fst x" "0 < fst y" by (auto simp add: less_le)
  from dbl_mult_bound [OF this assms(3,4,5)] show ?thesis by simp
qed

lemma dbl_div_percent:
  assumes "0 \<le> p" and "p \<le> 100"
  shows "dval (dbl_div (dbl_of_int p) (dbl_of_int 100)) \<le> 1
       \<and> 0 \<le> fst (dbl_div (dbl_of_int p) (dbl_of_int 100))"
proof (cases "p = 0")
  case True
  then show ?thesis
    by (simp add: dbl_div_def dbl_of_int_def round_ratio_def dval_def)
next
  case False
  with assms(1) have pos: "0 < p" by simp
  have dd: "dbl_div (dbl_of_int p) (dbl_of_int 100) = round_ratio p 100"
    using pos by (simp add: dbl_div_def dbl_of_int_def case_prod_beta)
  have "real_of_int p / real_of_int 100 \<le> real_of_int 1 * 2 powi 0"
    using assms(2) by simp
  from round_ratio_bound [OF pos _ _ _ this] show ?thesis by (simp add: dd)
qed

lemma halfPercent_bound:
  assumes "0 \<le> p" and "p \<le> 100" and "0 \<le> w" and "w < 2 ^ 53"
  shows "0 \<le> halfPercent p w \<and> 2 * halfPercent p w \<le> w + 1"
proof (cases "w = 0")
  case True
  have "fst (dbl_mult (dbl_div (dbl_of_int p) (dbl_of_int 100)) (dbl_of_int 0)) = 0"
    by (rule dbl_mult_zero) (simp add: dbl_of_int_def)
  then have "fst (dbl_mult dbl_half
      (dbl_mult (dbl_div (dbl_of_int p) (dbl_of_int 100)) (dbl_of_int 0))) = 0"
    by (intro dbl_mult_zero) simp
  then have "halfPercent p 0 = 0"
    by (simp add: halfPercent_def lround_def case_prod_beta)
  then show ?thesis using True by simp
next
  case False
  with assms(3) have wpos: "0 < w" by simp
  define x1 where "x1 = dbl_div (dbl_of_int p) (dbl_of_int 100)"
  define x2 where "x2 = dbl_mult x1 (dbl_of_int w)"
  define x3 where "x3 = dbl_mult dbl_half x2"
  have x1: "dval x1 \<le> 1" "0 \<le> fst x1"
    using dbl_div_percent [OF assms(1,2)] by (simp_all add: x1_def)
  have v1: "0 \<le> dval x1" using x1(2) by (simp add: dval_def)
  have "dval x1 * dval (dbl_of_int w) \<le> real_of_int w * 2 powi 0"
    using x1(1) wpos by (simp add: dval_def dbl_of_int_def mult_left_le_one_le)
  from dbl_mult_bound_nonneg [OF x1(2) _ wpos assms(4) this]
  have x2: "dval x2 \<le> real_of_int w" "0 \<le> fst x2"
    using wpos by (simp_all add: x2_def dbl_of_int_def)
  have "dval dbl_half * dval x2 \<le> real_of_int w * 2 powi (- 1)"
    using x2(1) by (simp add: dval_def dbl_half_def)
  from dbl_mult_bound_nonneg [OF _ x2(2) wpos assms(4) this]
  have x3: "dval x3 \<le> real_of_int w / 2" "0 \<le> fst x3"
    by (simp_all add: x3_def dbl_half_def)
  have "halfPercent p w = lround x3"
    by (simp add: halfPercent_def x3_def x2_def x1_def)
  then show ?thesis using lround_bound [OF x3(2) x3(1)] by simp
qed

text \<open>
  On the configuration domain of the specification, crop percentages between 0 and 100,
  and with the even extents of its data model, the crop never exceeds the frame: the
  cropped width and height are not negative. These are the conditions under which the
  theorems on \<open>cropAndCompress\<close> and \<open>cropAndBin\<close> are stated.
\<close>

lemma croppedWidth_nonneg:
  assumes "0 \<le> mCropWidth s" and "mCropWidth s \<le> 100"
    and "0 \<le> width b" and "width b < 2 ^ 31" and "even (width b)"
  shows "0 \<le> croppedWidth s b"
proof -
  have w: "width b < 2 ^ 53" using assms(4) by simp
  from halfPercent_bound [OF assms(1,2,3) w]
  have h: "0 \<le> halfPercent (mCropWidth s) (width b)"
    "2 * halfPercent (mCropWidth s) (width b) \<le> width b + 1" by simp_all
  have "horizontalCrop s b = 4 * (halfPercent (mCropWidth s) (width b) div 4)"
    using h(1) by (simp add: horizontalCrop_def sdiv_nonneg_eq)
  then have "horizontalCrop s b \<le> halfPercent (mCropWidth s) (width b)"
    and "even (horizontalCrop s b)" by simp_all
  then have "horizontalCrop s b * 2 \<le> width b + 1" using h(2) by simp
  then have "horizontalCrop s b * 2 \<le> width b" using assms(5) by presburger
  then show ?thesis by (simp add: croppedWidth_def)
qed

lemma croppedHeight_nonneg:
  assumes "0 \<le> mCropHeight s" and "mCropHeight s \<le> 100"
    and "0 \<le> height b" and "height b < 2 ^ 31" and "even (height b)"
  shows "0 \<le> croppedHeight s b"
proof -
  have w: "height b < 2 ^ 53" using assms(4) by simp
  from halfPercent_bound [OF assms(1,2,3) w]
  have h: "0 \<le> halfPercent (mCropHeight s) (height b)"
    "2 * halfPercent (mCropHeight s) (height b) \<le> height b + 1" by simp_all
  have "verticalCrop s b = 2 * (halfPercent (mCropHeight s) (height b) div 2)"
    using h(1) by (simp add: verticalCrop_def sdiv_nonneg_eq)
  then have "verticalCrop s b \<le> halfPercent (mCropHeight s) (height b)" by simp
  then have "verticalCrop s b * 2 \<le> height b + 1" using h(2) by simp
  then have "verticalCrop s b * 2 \<le> height b" using assms(5) by presburger
  then show ?thesis by (simp add: croppedHeight_def)
qed

section \<open>Streamer: frames processed and frames written\<close>

lemma length_filter_update:
  "i < length xs \<Longrightarrow>
   length (filter P (xs[i := x])) + (if P (xs ! i) then 1 else 0)
   = length (filter P xs) + (if P x then 1 else 0)"
proof (induction xs arbitrary: i)
  case Nil
  then show ?case by simp
next
  case (Cons a xs)
  show ?case
  proof (cases i)
    case 0
    then show ?thesis by simp
  next
    case (Suc k)
    with Cons.prems have "k < length xs" by simp
    from Cons.IH [OF this] show ?thesis using Suc by simp
  qed
qed

lemma length_concat_update:
  "j < length ws \<Longrightarrow>
   length (concat (map snd (ws[j := (a, c)]))) + length (snd (ws ! j))
   = length (concat (map snd ws)) + length c"
proof (induction ws arbitrary: j)
  case Nil
  then show ?case by simp
next
  case (Cons w ws)
  show ?case
  proof (cases j)
    case 0
    then show ?thesis by simp
  next
    case (Suc k)
    with Cons.prems have "k < length ws" by simp
    from Cons.IH [OF this] show ?thesis using Suc by simp
  qed
qed

lemma accounted_start: "accounted (start fds enableCompression numThreads s)"
  by (simp add: accounted_def start_def enqueuing_def writtenFrames_def)

lemma accounted_add: "accounted r \<Longrightarrow> accounted (add buffer r)"
  by (simp add: accounted_def add_def enqueuing_def writtenFrames_def)

lemma accounted_stop: "accounted r \<Longrightarrow> accounted (stop r)"
  by (simp add: accounted_def stop_def enqueuing_def writtenFrames_def)

lemma accounted_doProcess:
  assumes "accounted r"
  shows "accounted (doProcess encodeFunc i r)"
proof (cases "terminated r \<or> length (mProcessThreads r) \<le> i")
  case True
  then show ?thesis using assms by (simp add: doProcess_def)
next
  case False
  then have i: "i < length (mProcessThreads r)" by simp
  note u = length_filter_update [OF i,
      of "\<lambda>p. case p of P_Enqueue buffer \<Rightarrow> True | _ \<Rightarrow> False"]
  show ?thesis
  proof (cases "mProcessThreads r ! i")
    case P_Test
    then show ?thesis
      using assms False u [of P_Wait] u [of P_Done]
      by (simp add: doProcess_def accounted_def enqueuing_def writtenFrames_def)
  next
    case P_Wait
    then show ?thesis
      using assms False u [of P_Test] u [of "P_Process (hd (mUnprocessedBuffers (queues r)))"]
      by (auto simp add: doProcess_def accounted_def enqueuing_def writtenFrames_def
          split: list.split)
  next
    case (P_Process b)
    show ?thesis
    proof (cases "processBuffer encodeFunc (streamer r) b")
      case (Inl e)
      then show ?thesis
        using assms False P_Process
        by (simp add: doProcess_def accounted_def enqueuing_def writtenFrames_def)
    next
      case (Inr b')
      then show ?thesis
        using assms False P_Process u [of "P_Enqueue b'"]
        by (simp add: doProcess_def accounted_def enqueuing_def writtenFrames_def)
    qed
  next
    case (P_Enqueue b)
    then show ?thesis
      using assms False u [of P_Test]
      by (simp add: doProcess_def accounted_def enqueuing_def writtenFrames_def)
  next
    case P_Done
    then show ?thesis using assms False by (simp add: doProcess_def)
  qed
qed

lemma accounted_doStream:
  assumes "accounted r"
  shows "accounted (doStream encodeFunc j r)"
proof (cases "terminated r \<or> length (mIoThreads r) \<le> j")
  case True
  then show ?thesis using assms by (simp add: doStream_def)
next
  case False
  then have j: "j < length (mIoThreads r)" by simp
  note u = length_concat_update [OF j]
  obtain pc c where w: "mIoThreads r ! j = (pc, c)" by (cases "mIoThreads r ! j")
  show ?thesis
  proof (cases pc)
    case W_Test
    then show ?thesis
      using assms False w u [of W_Wait c] u [of W_FlushReady c]
      by (simp add: doStream_def accounted_def enqueuing_def writtenFrames_def)
  next
    case W_Wait
    show ?thesis
    proof (cases "mReadyBuffers (queues r)")
      case Nil
      then show ?thesis
        using assms False w W_Wait u [of W_Test c]
        by (simp add: doStream_def accounted_def enqueuing_def writtenFrames_def)
    next
      case (Cons b rest)
      then show ?thesis
        using assms False w W_Wait u [of W_Test "c @ [b]"]
        by (simp add: doStream_def accounted_def enqueuing_def writtenFrames_def)
    qed
  next
    case W_FlushReady
    show ?thesis
    proof (cases "mReadyBuffers (queues r)")
      case Nil
      then show ?thesis
        using assms False w W_FlushReady u [of W_FlushUnprocessed c]
        by (simp add: doStream_def accounted_def enqueuing_def writtenFrames_def)
    next
      case (Cons b rest)
      then show ?thesis
        using assms False w W_FlushReady u [of W_FlushReady "c @ [b]"]
        by (simp add: doStream_def accounted_def enqueuing_def writtenFrames_def)
    qed
  next
    case W_FlushUnprocessed
    show ?thesis
    proof (cases "mUnprocessedBuffers (queues r)")
      case Nil
      then show ?thesis
        using assms False w W_FlushUnprocessed u [of W_Done c]
        by (simp add: doStream_def accounted_def enqueuing_def writtenFrames_def)
    next
      case (Cons b rest)
      show ?thesis
      proof (cases "processBuffer encodeFunc (streamer r) b")
        case (Inl e)
        then show ?thesis
          using assms False w W_FlushUnprocessed Cons
          by (simp add: doStream_def accounted_def enqueuing_def writtenFrames_def)
      next
        case (Inr b')
        then show ?thesis
          using assms False w W_FlushUnprocessed Cons u [of W_FlushUnprocessed "c @ [b']"]
          by (simp add: doStream_def accounted_def enqueuing_def writtenFrames_def)
      qed
    qed
  next
    case W_Done
    then show ?thesis using assms False w by (simp add: doStream_def)
  qed
qed

lemma accounted_run: "accounted r \<Longrightarrow> accounted (run encodeFunc schedule r)"
  unfolding run_def
proof (induction schedule arbitrary: r)
  case Nil
  then show ?case by simp
next
  case (Cons e es)
  have "accounted (step encodeFunc r e)"
    using Cons.prems
    by (cases e) (simp_all add: accounted_add accounted_stop accounted_doProcess
        accounted_doStream)
  from Cons.IH [OF this] show ?case by simp
qed

lemma joined_enqueuing: "joined r \<Longrightarrow> enqueuing r = 0"
  by (auto simp add: joined_def enqueuing_def list_all_iff filter_empty_conv)

text \<open>
  Whatever the schedule, the frames in the containers are as many as \<open>mWrittenFrames\<close>
  says and never more than the frames processed. Once every thread has returned, the
  processed frames that were not written are as many as the frames left in
  \<open>mReadyBuffers\<close>.
\<close>

lemma written_le_transformed:
  fixes r :: "'m Run"
  assumes "r = run encodeFunc schedule (start fds enableCompression numThreads s)"
  shows "length (writtenFrames r) = mWrittenFrames r"
    and "mWrittenFrames r \<le> transformedFrames r"
    and "joined r \<Longrightarrow>
           transformedFrames r = mWrittenFrames r + length (mReadyBuffers (queues r))"
proof -
  have a: "accounted r"
    unfolding assms by (rule accounted_run [OF accounted_start])
  then show "length (writtenFrames r) = mWrittenFrames r"
    and "mWrittenFrames r \<le> transformedFrames r"
    by (simp_all add: accounted_def)
  show "transformedFrames r = mWrittenFrames r + length (mReadyBuffers (queues r))"
    if "joined r"
    using a joined_enqueuing [OF that] by (simp add: accounted_def)
qed


lemma processBuffer_lateFrame:
  "mCropWidth s = 0 \<Longrightarrow> mCropHeight s = 0 \<Longrightarrow> \<not> mBin s \<Longrightarrow> \<not> mEnableCompression s \<Longrightarrow>
   processBuffer encodeFunc s lateFrame = Inr lateFrame"
  by (simp add: processBuffer_def crop_def lateFrame_def frame_def)

text \<open>
  C9. The claim: the frames written, over all IO threads, are as many as the frames
  that completed \<open>processBuffer\<close>. In \<open>lateSchedule\<close> a process thread has dequeued the
  one frame when \<open>stop\<close> clears \<open>mRunning\<close>; the IO thread leaves its loop, finds
  \<open>mReadyBuffers\<close> and \<open>mUnprocessedBuffers\<close> empty and commits its container; the
  process thread then finishes the frame and enqueues it. Every thread has returned,
  one frame was accepted and processed, none was written, and the frame is left in
  \<open>mReadyBuffers\<close>.
\<close>

theorem transformed_frame_never_written:
  "joined (run plainCodec lateSchedule (start 1 False 1 (config False 0 0 False False)))
   \<and> \<not> terminated (run plainCodec lateSchedule (start 1 False 1 (config False 0 0 False False)))
   \<and> mAcceptedFrames (run plainCodec lateSchedule (start 1 False 1 (config False 0 0 False False)))
       = 1
   \<and> transformedFrames
        (run plainCodec lateSchedule (start 1 False 1 (config False 0 0 False False))) = 1
   \<and> mWrittenFrames (run plainCodec lateSchedule (start 1 False 1 (config False 0 0 False False)))
       = 0
   \<and> writtenFrames (run plainCodec lateSchedule (start 1 False 1 (config False 0 0 False False)))
       = []
   \<and> mReadyBuffers (queues
        (run plainCodec lateSchedule (start 1 False 1 (config False 0 0 False False))))
       = [lateFrame]"
proof -
  have r: "run plainCodec lateSchedule (start 1 False 1 (config False 0 0 False False))
      = \<lparr>streamer = config False 0 0 False False,
         queues = \<lparr>mUnprocessedBuffers = [], mReadyBuffers = [lateFrame]\<rparr>,
         mProcessThreads = [P_Done], mIoThreads = [(W_Done, [])],
         mWrittenFrames = 0, mAcceptedFrames = 1, transformedFrames = 1, terminated = False\<rparr>"
    by (simp add: run_def lateSchedule_def start_def add_def stop_def doProcess_def doStream_def
        processBuffer_lateFrame Let_def config_def)
  show ?thesis
    unfolding r by (simp add: joined_def writtenFrames_def)
qed

end
